theory Spec2Isabelle
  imports Complex_Main
begin

section \<open>Strings of the Schedule A checker\<close>

text \<open>
  The script \<open>A - Checker.ts\<close> works on JavaScript strings. A string is modelled as a
  \<^typ>\<open>string\<close>, one \<^typ>\<open>char\<close> per code unit, which covers the code units
  \<open>0 .. 255\<close>. On that range \<open>trim()\<close> and the regular expression class \<open>\s\<close>
  remove the same seven characters, and \<open>toLowerCase()\<close> shifts \<open>A .. Z\<close> and the
  accented capitals \<open>192 .. 222\<close> (without the multiplication sign \<open>215\<close>) by 32.
\<close>

definition isWhiteSpace :: "char \<Rightarrow> bool" where
  "isWhiteSpace c = ((of_char c :: int) \<in> {9, 10, 11, 12, 13, 32, 160})"

definition trim :: "string \<Rightarrow> string" where
  "trim s = rev (dropWhile isWhiteSpace (rev (dropWhile isWhiteSpace s)))"

definition toLowerCaseChar :: "char \<Rightarrow> char" where
  "toLowerCaseChar c =
     (let n = (of_char c :: int)
      in if (65 \<le> n \<and> n \<le> 90) \<or> (192 \<le> n \<and> n \<le> 222 \<and> n \<noteq> 215)
         then char_of (n + 32) else c)"

definition toLowerCase :: "string \<Rightarrow> string" where
  "toLowerCase s = map toLowerCaseChar s"

text \<open>\<open>name.split("(")[0]\<close>: the text before the first opening parenthesis.\<close>

definition splitParenFirst :: "string \<Rightarrow> string" where
  "splitParenFirst name = takeWhile (\<lambda>c. c \<noteq> CHR ''('') name"

text \<open>\<open>replace(/ - /g, " ")\<close>: matches are found left to right and do not overlap.\<close>

fun replaceSpaceHyphenSpace :: "string \<Rightarrow> string" where
  "replaceSpaceHyphenSpace (a # b # c # rest) =
     (if [a, b, c] = '' - '' then CHR '' '' # replaceSpaceHyphenSpace rest
      else a # replaceSpaceHyphenSpace (b # c # rest))"
| "replaceSpaceHyphenSpace cs = cs"

text \<open>\<open>replace(/- /g, "")\<close>.\<close>

fun removeHyphenSpace :: "string \<Rightarrow> string" where
  "removeHyphenSpace (a # b # rest) =
     (if [a, b] = ''- '' then removeHyphenSpace rest
      else a # removeHyphenSpace (b # rest))"
| "removeHyphenSpace cs = cs"

text \<open>\<open>replace(/ -$/g, "")\<close>: without the \<open>m\<close> flag, \<open>$\<close> is the end of the input.\<close>

definition removeTrailingSpaceHyphen :: "string \<Rightarrow> string" where
  "removeTrailingSpaceHyphen s =
     (if 2 \<le> length s \<and> drop (length s - 2) s = '' -''
      then take (length s - 2) s else s)"

text \<open>\<open>replace(/\s+/g, "")\<close> and \<open>replace(/[^a-z]/g, "")\<close>.\<close>

definition removeWhiteSpace :: "string \<Rightarrow> string" where
  "removeWhiteSpace s = filter (\<lambda>c. \<not> isWhiteSpace c) s"

definition isLowerAZ :: "char \<Rightarrow> bool" where
  "isLowerAZ c = (97 \<le> (of_char c :: int) \<and> (of_char c :: int) \<le> 122)"

definition removeNonLetters :: "string \<Rightarrow> string" where
  "removeNonLetters s = filter isLowerAZ s"

section \<open>Name normalisation\<close>

definition cleanName :: "string \<Rightarrow> string" where
  "cleanName name =
     (let cleaned = trim (splitParenFirst name);
          cleaned = replaceSpaceHyphenSpace cleaned;
          cleaned = removeHyphenSpace cleaned;
          cleaned = removeTrailingSpaceHyphen cleaned
      in trim cleaned)"

definition normalizeName :: "string \<Rightarrow> string \<Rightarrow> string" where
  "normalizeName firstName lastName =
     (let combined = toLowerCase (firstName @ lastName)
      in removeNonLetters (removeWhiteSpace combined))"

definition normalizeActivityName :: "string \<Rightarrow> string" where
  "normalizeActivityName name =
     (let cleaned = toLowerCase (trim (splitParenFirst name))
      in removeNonLetters (removeWhiteSpace cleaned))"

text \<open>
  The function the refinement claim compares the pipeline with: cut at the first
  \<open>(\<close>, lowercase, keep the letters \<open>a .. z\<close>.
\<close>

definition simpleNormalize :: "string \<Rightarrow> string" where
  "simpleNormalize s = filter isLowerAZ (toLowerCase (takeWhile (\<lambda>c. c \<noteq> CHR ''('') s))"

subsection \<open>What the letter filter forgets\<close>

definition letters :: "string \<Rightarrow> string" where
  "letters s = filter isLowerAZ (toLowerCase s)"

lemma letters_append: "letters (xs @ ys) = letters xs @ letters ys"
  by (simp add: letters_def toLowerCase_def)

lemma letters_rev: "letters (rev xs) = rev (letters xs)"
  by (simp add: letters_def toLowerCase_def rev_map rev_filter)

lemma letters_Cons:
  "letters (c # cs) = (if isLowerAZ (toLowerCaseChar c) then toLowerCaseChar c # letters cs else letters cs)"
  by (simp add: letters_def toLowerCase_def)

lemma white_not_letter: "isWhiteSpace c \<Longrightarrow> \<not> isLowerAZ (toLowerCaseChar c)"
  by (auto simp: isWhiteSpace_def isLowerAZ_def toLowerCaseChar_def Let_def)

lemma space_not_letter: "\<not> isLowerAZ (toLowerCaseChar CHR '' '')"
  by (simp add: isLowerAZ_def toLowerCaseChar_def)

lemma hyphen_not_letter: "\<not> isLowerAZ (toLowerCaseChar CHR ''-'')"
  by (simp add: isLowerAZ_def toLowerCaseChar_def)

lemma letters_dropWhile: "letters (dropWhile isWhiteSpace s) = letters s"
  by (induction s) (simp_all add: letters_Cons white_not_letter)

lemma letters_trim: "letters (trim s) = letters s"
  by (simp add: trim_def letters_rev letters_dropWhile)

lemma letters_replaceSpaceHyphenSpace: "letters (replaceSpaceHyphenSpace s) = letters s"
  by (induction s rule: replaceSpaceHyphenSpace.induct)
     (auto simp: letters_Cons space_not_letter hyphen_not_letter)

lemma letters_removeHyphenSpace: "letters (removeHyphenSpace s) = letters s"
  by (induction s rule: removeHyphenSpace.induct)
     (auto simp: letters_Cons space_not_letter hyphen_not_letter)

lemma letters_removeTrailingSpaceHyphen: "letters (removeTrailingSpaceHyphen s) = letters s"
proof (cases "2 \<le> length s \<and> drop (length s - 2) s = '' -''")
  case True
  have "letters s = letters (take (length s - 2) s @ drop (length s - 2) s)"
    by simp
  also have "\<dots> = letters (take (length s - 2) s) @ letters '' -''"
    using True by (simp only: letters_append)
  also have "letters '' -'' = []"
    by (simp add: letters_Cons space_not_letter hyphen_not_letter letters_def toLowerCase_def)
  finally show ?thesis
    using True by (simp add: removeTrailingSpaceHyphen_def)
next
  case False
  then show ?thesis
    by (auto simp: removeTrailingSpaceHyphen_def)
qed

lemma letters_removeWhiteSpace:
  "filter isLowerAZ (removeWhiteSpace (toLowerCase s)) = letters s"
proof -
  have "isLowerAZ c \<Longrightarrow> \<not> isWhiteSpace c" for c
    by (auto simp: isWhiteSpace_def isLowerAZ_def)
  then have "filter isLowerAZ (filter (\<lambda>c. \<not> isWhiteSpace c) xs) = filter isLowerAZ xs" for xs
    by (induction xs) auto
  then show ?thesis
    by (simp add: removeWhiteSpace_def letters_def)
qed

subsection \<open>The cleaned name has no parenthesis\<close>

lemma set_trim: "set (trim s) \<subseteq> set s"
proof -
  have "set (dropWhile isWhiteSpace xs) \<subseteq> set xs" for xs
    by (simp add: set_dropWhileD subsetI)
  then have "set (dropWhile isWhiteSpace (rev (dropWhile isWhiteSpace s))) \<subseteq> set s"
    by (metis set_rev subset_trans)
  then show ?thesis
    by (simp add: trim_def)
qed

lemma set_replaceSpaceHyphenSpace: "set (replaceSpaceHyphenSpace s) \<subseteq> set s"
  by (induction s rule: replaceSpaceHyphenSpace.induct) auto

lemma set_removeHyphenSpace: "set (removeHyphenSpace s) \<subseteq> set s"
  by (induction s rule: removeHyphenSpace.induct) auto

lemma set_removeTrailingSpaceHyphen: "set (removeTrailingSpaceHyphen s) \<subseteq> set s"
  by (auto simp: removeTrailingSpaceHyphen_def dest: in_set_takeD)

lemma set_cleanName: "set (cleanName s) \<subseteq> set (splitParenFirst s)"
proof -
  let ?a = "trim (splitParenFirst s)"
  let ?b = "replaceSpaceHyphenSpace ?a"
  let ?c = "removeHyphenSpace ?b"
  let ?d = "removeTrailingSpaceHyphen ?c"
  have "set (trim ?d) \<subseteq> set ?d" by (rule set_trim)
  also have "\<dots> \<subseteq> set ?c" by (rule set_removeTrailingSpaceHyphen)
  also have "\<dots> \<subseteq> set ?b" by (rule set_removeHyphenSpace)
  also have "\<dots> \<subseteq> set ?a" by (rule set_replaceSpaceHyphenSpace)
  also have "\<dots> \<subseteq> set (splitParenFirst s)" by (rule set_trim)
  finally show ?thesis
    by (simp add: cleanName_def Let_def)
qed

lemma no_paren_splitParenFirst: "CHR ''('' \<notin> set (splitParenFirst s)"
  by (auto simp: splitParenFirst_def dest: set_takeWhileD)

lemma splitParenFirst_id: "CHR ''('' \<notin> set s \<Longrightarrow> splitParenFirst s = s"
  by (auto simp: splitParenFirst_def)

lemma letters_cleanName: "letters (cleanName s) = letters (splitParenFirst s)"
  by (simp add: cleanName_def Let_def letters_trim letters_removeTrailingSpaceHyphen
      letters_removeHyphenSpace letters_replaceSpaceHyphenSpace)

lemma normalizeActivityName_letters:
  "normalizeActivityName s = letters (splitParenFirst s)"
  by (simp add: normalizeActivityName_def Let_def removeNonLetters_def
      letters_removeWhiteSpace letters_trim)

lemma normalize_is_simple: "normalizeActivityName (cleanName s) = simpleNormalize s"
proof -
  have "CHR ''('' \<notin> set (cleanName s)"
    using set_cleanName no_paren_splitParenFirst by blast
  then have "splitParenFirst (cleanName s) = cleanName s"
    by (rule splitParenFirst_id)
  then have "normalizeActivityName (cleanName s) = letters (splitParenFirst s)"
    by (simp add: normalizeActivityName_letters letters_cleanName)
  then show ?thesis
    by (simp add: simpleNormalize_def letters_def splitParenFirst_def)
qed

lemma lower_letter: "isLowerAZ c \<Longrightarrow> toLowerCaseChar c = c"
  by (simp add: isLowerAZ_def toLowerCaseChar_def)

lemma letter_not_paren: "isLowerAZ c \<Longrightarrow> c \<noteq> CHR ''(''"
  by (auto simp: isLowerAZ_def)

lemma simpleNormalize_letters_only: "\<forall>c \<in> set s. isLowerAZ c \<Longrightarrow> simpleNormalize s = s"
proof -
  assume a: "\<forall>c \<in> set s. isLowerAZ c"
  then have t: "takeWhile (\<lambda>c. c \<noteq> CHR ''('') s = s"
    by (auto simp: letter_not_paren)
  have m: "map toLowerCaseChar s = s"
    using a by (simp add: lower_letter map_idI)
  have f: "filter isLowerAZ s = s"
    using a by simp
  show ?thesis
    unfolding simpleNormalize_def toLowerCase_def t m f ..
qed

lemma simpleNormalize_letters: "\<forall>c \<in> set (simpleNormalize s). isLowerAZ c"
  by (simp add: simpleNormalize_def)

section \<open>Claims on normalisation\<close>

text \<open>
  Claim C9. Normalisation is idempotent: running the pipeline \<open>cleanName\<close> then
  \<open>normalizeActivityName\<close> on its own output gives that output back.
\<close>

theorem C9_normalize_idempotent:
  "normalizeActivityName (cleanName (normalizeActivityName (cleanName s)))
     = normalizeActivityName (cleanName s)"
  by (simp add: normalize_is_simple simpleNormalize_letters_only simpleNormalize_letters)

text \<open>
  Claim C10. The pipeline \<open>normalizeActivityName (cleanName s)\<close> is the function that cuts
  \<open>s\<close> at its first \<open>(\<close>, lowercases and keeps the letters \<open>a .. z\<close>; the three hyphen
  removals of \<open>cleanName\<close> only delete characters that the letter filter deletes as well,
  so leaving them out of \<open>cleanName\<close> gives the same normalised name.
\<close>

theorem C10_normalize_refines_simple:
  "normalizeActivityName (cleanName s) = simpleNormalize s
   \<and> normalizeActivityName (trim (trim (splitParenFirst s))) = normalizeActivityName (cleanName s)"
proof -
  have "CHR ''('' \<notin> set (trim (trim (splitParenFirst s)))"
    using set_trim no_paren_splitParenFirst by blast
  then have "normalizeActivityName (trim (trim (splitParenFirst s))) = letters (splitParenFirst s)"
    by (simp add: normalizeActivityName_letters splitParenFirst_id letters_trim)
  moreover have "simpleNormalize s = letters (splitParenFirst s)"
    by (simp add: simpleNormalize_def letters_def splitParenFirst_def)
  ultimately show ?thesis
    by (simp add: normalize_is_simple)
qed

section \<open>Edit distance\<close>

text \<open>
  The reference the distance claims are measured against: the Levenshtein distance by its
  textbook recursion, and the edit scripts it minimises (\<open>edit n xs ys\<close>: \<open>xs\<close> becomes
  \<open>ys\<close> by deletions, insertions and substitutions of total cost \<open>n\<close>). Neither is
  taken from the script.
\<close>

fun levenshtein :: "'a list \<Rightarrow> 'a list \<Rightarrow> nat" where
  "levenshtein [] ys = length ys"
| "levenshtein xs [] = length xs"
| "levenshtein (x # xs) (y # ys) =
     min (min (levenshtein xs (y # ys) + 1) (levenshtein (x # xs) ys + 1))
         (levenshtein xs ys + (if x = y then 0 else 1))"

inductive edit :: "nat \<Rightarrow> 'a list \<Rightarrow> 'a list \<Rightarrow> bool" where
  edit_Nil: "edit 0 [] []"
| edit_del: "edit n xs ys \<Longrightarrow> edit (Suc n) (x # xs) ys"
| edit_ins: "edit n xs ys \<Longrightarrow> edit (Suc n) xs (y # ys)"
| edit_sub: "edit n xs ys \<Longrightarrow> edit (n + (if x = y then 0 else 1)) (x # xs) (y # ys)"

text \<open>
  \<open>levenshteinDistanceWithLimit\<close> of the script. The two rolling arrays \<open>prev\<close> and
  \<open>curr\<close> (here \<open>cur\<close>) have \<open>n + 1\<close> cells; \<open>inner_step\<close> is the body of the loop over
  \<open>j = 1 .. n\<close>, \<open>fill_row\<close> that loop after \<open>curr[0] = i\<close> and \<open>minInRow = i\<close>, and
  \<open>rows_loop\<close> the loop over \<open>i = 1 .. m\<close> with its early return and the swap of the two
  arrays. Distances are natural numbers; the budget and the result are integers, since the
  caller passes a floor. Every array and string access of the loops is in range
  (\<open>1 \<le> i \<le> m\<close>, \<open>1 \<le> j \<le> n\<close>).
\<close>

definition inner_step :: "string \<Rightarrow> string \<Rightarrow> nat \<Rightarrow> nat list \<Rightarrow> nat \<Rightarrow> nat list \<times> nat \<Rightarrow> nat list \<times> nat" where
  "inner_step str1 str2 i prev j st =
     (let (cur, minInRow) = st;
          cost = (if str1 ! (i - 1) = str2 ! (j - 1) then 0 else 1);
          cur = cur[j := min (min (prev ! j + 1) (cur ! (j - 1) + 1)) (prev ! (j - 1) + cost)];
          minInRow = min minInRow (cur ! j)
      in (cur, minInRow))"

definition fill_row :: "string \<Rightarrow> string \<Rightarrow> nat \<Rightarrow> nat list \<Rightarrow> nat list \<Rightarrow> nat list \<times> nat" where
  "fill_row str1 str2 i prev cur =
     fold (inner_step str1 str2 i prev) [1..<Suc (length str2)] (cur[0 := i], i)"

function rows_loop :: "string \<Rightarrow> string \<Rightarrow> int \<Rightarrow> nat \<Rightarrow> nat list \<Rightarrow> nat list \<Rightarrow> int" where
  "rows_loop str1 str2 maxDistance i prev cur =
     (if i \<le> length str1
      then (let (cur, minInRow) = fill_row str1 str2 i prev cur
            in if int minInRow > maxDistance then maxDistance + 1
               else rows_loop str1 str2 maxDistance (i + 1) cur prev)
      else int (prev ! length str2))"
  by pat_completeness auto
termination
  by (relation "measure (\<lambda>(str1, str2, maxDistance, i, prev, cur). Suc (length str1) - i)") auto

definition levenshteinDistanceWithLimit :: "string \<Rightarrow> string \<Rightarrow> int \<Rightarrow> int" where
  "levenshteinDistanceWithLimit str1 str2 maxDistance =
     (let n = length str2;
          prev = map (\<lambda>i. i) [0..<Suc n];
          cur = replicate (Suc n) 0
      in rows_loop str1 str2 maxDistance 1 prev cur)"

subsection \<open>The recursion minimises edit scripts, from either end\<close>

lemma levenshtein_Nil2: "levenshtein xs [] = length xs"
  by (cases xs) simp_all

lemma edit_from_Nil: "edit (length ys) [] ys"
  by (induction ys) (auto intro: edit.intros)

lemma edit_to_Nil: "edit (length xs) xs []"
  by (induction xs) (auto intro: edit.intros)

lemma edit_levenshtein: "edit (levenshtein xs ys) xs ys"
proof (induction xs ys rule: levenshtein.induct)
  case (1 ys)
  then show ?case by (simp add: edit_from_Nil)
next
  case (2 v va)
  then show ?case using edit_to_Nil [of "v # va"] by simp
next
  case (3 x xs y ys)
  let ?d = "levenshtein xs (y # ys) + 1"
  let ?i = "levenshtein (x # xs) ys + 1"
  let ?s = "levenshtein xs ys + (if x = y then 0 else 1)"
  have d: "edit ?d (x # xs) (y # ys)"
    using 3(1) edit_del by fastforce
  have i: "edit ?i (x # xs) (y # ys)"
    using 3(2) edit_ins by fastforce
  have s: "edit ?s (x # xs) (y # ys)"
    using 3(3) by (rule edit_sub)
  have "levenshtein (x # xs) (y # ys) = ?d \<or> levenshtein (x # xs) (y # ys) = ?i
        \<or> levenshtein (x # xs) (y # ys) = ?s"
    by (simp add: min_def)
  then show ?case using d i s by metis
qed

lemma levenshtein_del: "levenshtein (x # xs) ys \<le> Suc (levenshtein xs ys)"
  by (cases ys) (simp_all add: levenshtein_Nil2)

lemma levenshtein_ins: "levenshtein xs (y # ys) \<le> Suc (levenshtein xs ys)"
  by (cases xs) simp_all

lemma levenshtein_sub:
  "levenshtein (x # xs) (y # ys) \<le> levenshtein xs ys + (if x = y then 0 else 1)"
  by simp

lemma levenshtein_least: "edit n xs ys \<Longrightarrow> levenshtein xs ys \<le> n"
proof (induction rule: edit.induct)
  case edit_Nil
  then show ?case by simp
next
  case (edit_del n xs ys x)
  then show ?case using levenshtein_del [of x xs ys] by linarith
next
  case (edit_ins n xs ys y)
  then show ?case using levenshtein_ins [of xs y ys] by linarith
next
  case (edit_sub n xs ys x y)
  then show ?case using levenshtein_sub [of x xs y ys] by linarith
qed

lemma edit_append:
  "edit n xs ys \<Longrightarrow> edit k xs' ys' \<Longrightarrow> edit (n + k) (xs @ xs') (ys @ ys')"
proof (induction rule: edit.induct)
  case edit_Nil
  then show ?case by simp
next
  case (edit_del n xs ys x)
  then show ?case using edit.edit_del by fastforce
next
  case (edit_ins n xs ys y)
  then show ?case using edit.edit_ins by fastforce
next
  case (edit_sub n xs ys x y)
  from edit_sub.IH [OF edit_sub.prems] have "edit (n + k) (xs @ xs') (ys @ ys')" .
  then have "edit (n + k + (if x = y then 0 else 1)) (x # xs @ xs') (y # ys @ ys')"
    by (rule edit.edit_sub)
  then show ?case by (cases "x = y") (simp_all add: add.commute)
qed

lemma edit_rev: "edit n xs ys \<Longrightarrow> edit n (rev xs) (rev ys)"
proof (induction rule: edit.induct)
  case edit_Nil
  then show ?case by (simp add: edit.edit_Nil)
next
  case (edit_del n xs ys x)
  have "edit (Suc 0) [x] []"
    by (intro edit.intros)
  with edit_del.IH have "edit (n + Suc 0) (rev xs @ [x]) (rev ys @ [])"
    by (rule edit_append)
  then show ?case by simp
next
  case (edit_ins n xs ys y)
  have "edit (Suc 0) [] [y]"
    by (intro edit.intros)
  with edit_ins.IH have "edit (n + Suc 0) (rev xs @ []) (rev ys @ [y])"
    by (rule edit_append)
  then show ?case by simp
next
  case (edit_sub n xs ys x y)
  have "edit (0 + (if x = y then 0 else 1)) [x] [y]"
    by (intro edit.intros)
  with edit_sub.IH have "edit (n + (0 + (if x = y then 0 else 1))) (rev xs @ [x]) (rev ys @ [y])"
    by (rule edit_append)
  then show ?case by simp
qed

lemma levenshtein_rev_le: "levenshtein (rev xs) (rev ys) \<le> levenshtein xs ys"
  by (intro levenshtein_least edit_rev edit_levenshtein)

lemma levenshtein_rev: "levenshtein (rev xs) (rev ys) = levenshtein xs ys"
  using levenshtein_rev_le [of xs ys] levenshtein_rev_le [of "rev xs" "rev ys"] by simp

lemma levenshtein_sym: "levenshtein xs ys = levenshtein ys xs"
  by (induction xs ys rule: levenshtein.induct) (simp_all add: levenshtein_Nil2 min.commute min.left_commute)

lemma levenshtein_snoc:
  "levenshtein (xs @ [x]) (ys @ [y]) =
     min (min (levenshtein xs (ys @ [y]) + 1) (levenshtein (xs @ [x]) ys + 1))
         (levenshtein xs ys + (if x = y then 0 else 1))"
proof -
  have "levenshtein (xs @ [x]) (ys @ [y]) = levenshtein (x # rev xs) (y # rev ys)"
    using levenshtein_rev [of "x # rev xs" "y # rev ys"] by simp
  moreover have "levenshtein (rev xs) (y # rev ys) = levenshtein xs (ys @ [y])"
    using levenshtein_rev [of "xs" "ys @ [y]"] by simp
  moreover have "levenshtein (x # rev xs) (rev ys) = levenshtein (xs @ [x]) ys"
    using levenshtein_rev [of "xs @ [x]" "ys"] by simp
  ultimately show ?thesis
    by (simp add: levenshtein_rev)
qed

subsection \<open>The rolling rows\<close>

lemma take_snoc: "i < length s \<Longrightarrow> take (Suc i) s = take i s @ [s ! i]"
  by (rule take_Suc_conv_app_nth)

lemma levenshtein_take_step:
  assumes "i < length s1" "j < length s2"
  shows "levenshtein (take (Suc i) s1) (take (Suc j) s2) =
     min (min (levenshtein (take i s1) (take (Suc j) s2) + 1)
              (levenshtein (take (Suc i) s1) (take j s2) + 1))
         (levenshtein (take i s1) (take j s2) + (if s1 ! i = s2 ! j then 0 else 1))"
  using assms levenshtein_snoc [of "take i s1" "s1 ! i" "take j s2" "s2 ! j"]
  by (simp add: take_snoc)

lemma row_bound_step:
  assumes b: "\<forall>j \<le> length s2. b \<le> levenshtein (take i s1) (take j s2)"
    and j: "j \<le> length s2"
  shows "b \<le> levenshtein (take (Suc i) s1) (take j s2)"
proof (cases "i < length s1")
  case False
  then have "take (Suc i) s1 = take i s1" by simp
  then show ?thesis using b j by simp
next
  case True
  show ?thesis using j
  proof (induction j)
    case 0
    have "b \<le> levenshtein (take i s1) (take 0 s2)" using b by blast
    then show ?case using True by (simp add: levenshtein_Nil2)
  next
    case (Suc j)
    then have jl: "j < length s2" by simp
    have 1: "b \<le> levenshtein (take i s1) (take (Suc j) s2)" using b Suc.prems by blast
    have 2: "b \<le> levenshtein (take (Suc i) s1) (take j s2)" using Suc by simp
    have 3: "b \<le> levenshtein (take i s1) (take j s2)" using b jl by simp
    show ?case
      unfolding levenshtein_take_step [OF True jl] using 1 2 3 by simp
  qed
qed

lemma row_bound_final:
  assumes "\<forall>j \<le> length s2. b \<le> levenshtein (take i s1) (take j s2)"
  shows "b \<le> levenshtein s1 s2"
proof -
  have "\<forall>j \<le> length s2. b \<le> levenshtein (take (i + k) s1) (take j s2)" for k
  proof (induction k)
    case 0
    then show ?case using assms by simp
  next
    case (Suc k)
    then show ?case using row_bound_step [of s2 b "i + k" s1] by simp
  qed
  from this [of "length s1", rule_format, of "length s2"] show ?thesis by simp
qed

definition rowMin :: "string \<Rightarrow> string \<Rightarrow> nat \<Rightarrow> nat" where
  "rowMin s1 s2 i = Min ((\<lambda>j. levenshtein (take i s1) (take j s2)) ` {0..length s2})"

lemma rowMin_le: "rowMin s1 s2 i \<le> levenshtein s1 s2"
proof (rule row_bound_final [of s2 _ i])
  show "\<forall>j \<le> length s2. rowMin s1 s2 i \<le> levenshtein (take i s1) (take j s2)"
    by (simp add: rowMin_def)
qed

lemma fill_row_prefix:
  assumes i: "1 \<le> i" "i \<le> length s1"
    and prev: "\<forall>j \<le> length s2. prev ! j = levenshtein (take (i - 1) s1) (take j s2)"
    and len: "length cur = Suc (length s2)"
    and k: "k \<le> length s2"
  shows "\<exists>c m. fold (inner_step s1 s2 i prev) [1..<Suc k] (cur[0 := i], i) = (c, m)
           \<and> length c = Suc (length s2)
           \<and> (\<forall>j \<le> k. c ! j = levenshtein (take i s1) (take j s2))
           \<and> (\<forall>j \<le> k. m \<le> c ! j) \<and> (\<exists>j \<le> k. m = c ! j)"
  using k
proof (induction k)
  case 0
  then show ?case using i len by (simp add: levenshtein_Nil2)
next
  case (Suc k)
  then obtain c m j0 where f: "fold (inner_step s1 s2 i prev) [1..<Suc k] (cur[0 := i], i) = (c, m)"
    and lc: "length c = Suc (length s2)"
    and c: "\<forall>j \<le> k. c ! j = levenshtein (take i s1) (take j s2)"
    and m: "\<forall>j \<le> k. m \<le> c ! j"
    and j0: "j0 \<le> k" "m = c ! j0"
    by auto
  define v where "v = min (min (prev ! Suc k + 1) (c ! k + 1))
               (prev ! k + (if s1 ! (i - 1) = s2 ! k then 0 else 1))"
  have kl: "k < length s2" using Suc.prems by simp
  have il: "i - 1 < length s1" using i by simp
  have step: "fold (inner_step s1 s2 i prev) [1..<Suc (Suc k)] (cur[0 := i], i)
      = (c[Suc k := v], min m v)"
    using f lc kl by (simp add: inner_step_def v_def)
  have v: "v = levenshtein (take i s1) (take (Suc k) s2)"
    using levenshtein_take_step [OF il kl] prev c kl i by (simp add: v_def)
  have "\<forall>j \<le> Suc k. (c[Suc k := v]) ! j = levenshtein (take i s1) (take j s2)"
  proof (intro allI impI)
    fix j assume "j \<le> Suc k"
    then show "(c[Suc k := v]) ! j = levenshtein (take i s1) (take j s2)"
      using c v lc kl by (cases "j = Suc k") simp_all
  qed
  moreover have "\<forall>j \<le> Suc k. min m v \<le> (c[Suc k := v]) ! j"
  proof (intro allI impI)
    fix j assume "j \<le> Suc k"
    then show "min m v \<le> (c[Suc k := v]) ! j"
      using m lc kl by (cases "j = Suc k") (simp_all add: min.coboundedI1)
  qed
  moreover have "\<exists>j \<le> Suc k. min m v = (c[Suc k := v]) ! j"
  proof (cases "m \<le> v")
    case True
    then have "min m v = (c[Suc k := v]) ! j0" using j0 by (simp add: min_def)
    then show ?thesis using j0 by (meson le_SucI)
  next
    case False
    then have "min m v = (c[Suc k := v]) ! Suc k" using lc kl by (simp add: min_def)
    then show ?thesis by blast
  qed
  ultimately show ?case using step lc by simp
qed

lemma fill_row_correct:
  assumes "1 \<le> i" "i \<le> length s1"
    and "\<forall>j \<le> length s2. prev ! j = levenshtein (take (i - 1) s1) (take j s2)"
    and "length cur = Suc (length s2)"
  shows "\<exists>c. fill_row s1 s2 i prev cur = (c, rowMin s1 s2 i)
           \<and> length c = Suc (length s2)
           \<and> (\<forall>j \<le> length s2. c ! j = levenshtein (take i s1) (take j s2))"
proof -
  from fill_row_prefix [OF assms, of "length s2"]
  obtain c m j0 where f: "fill_row s1 s2 i prev cur = (c, m)"
    and lc: "length c = Suc (length s2)"
    and c: "\<forall>j \<le> length s2. c ! j = levenshtein (take i s1) (take j s2)"
    and m: "\<forall>j \<le> length s2. m \<le> c ! j"
    and j0: "j0 \<le> length s2" "m = c ! j0"
    by (auto simp: fill_row_def)
  have "rowMin s1 s2 i = m"
    unfolding rowMin_def
  proof (rule Min_eqI)
    show "finite ((\<lambda>j. levenshtein (take i s1) (take j s2)) ` {0..length s2})" by simp
    show "m \<le> y" if "y \<in> (\<lambda>j. levenshtein (take i s1) (take j s2)) ` {0..length s2}" for y
      using that c m by auto
    show "m \<in> (\<lambda>j. levenshtein (take i s1) (take j s2)) ` {0..length s2}"
      using j0 c by auto
  qed
  then show ?thesis using f lc c by simp
qed

lemma rows_loop_correct:
  assumes "1 \<le> i" "i \<le> Suc (length s1)"
    and "\<forall>j \<le> length s2. prev ! j = levenshtein (take (i - 1) s1) (take j s2)"
    and "length prev = Suc (length s2)"
    and "length cur = Suc (length s2)"
  shows "rows_loop s1 s2 maxDistance i prev cur =
           (if \<exists>k. i \<le> k \<and> k \<le> length s1 \<and> maxDistance < int (rowMin s1 s2 k)
            then maxDistance + 1 else int (levenshtein s1 s2))"
  using assms
proof (induction s1 s2 maxDistance i prev cur rule: rows_loop.induct)
  case (1 str1 str2 maxDistance i prev cur)
  show ?case
  proof (cases "i \<le> length str1")
    case False
    then have "i - 1 = length str1" using "1.prems" by simp
    then have "prev ! length str2 = levenshtein str1 str2"
      using "1.prems"(3) by simp
    then show ?thesis using False by auto
  next
    case True
    from fill_row_correct [OF "1.prems"(1) True "1.prems"(3) "1.prems"(5)]
    obtain c where f: "fill_row str1 str2 i prev cur = (c, rowMin str1 str2 i)"
      and lc: "length c = Suc (length str2)"
      and c: "\<forall>j \<le> length str2. c ! j = levenshtein (take i str1) (take j str2)"
      by blast
    show ?thesis
    proof (cases "int (rowMin str1 str2 i) > maxDistance")
      case abort: True
      then have "rows_loop str1 str2 maxDistance i prev cur = maxDistance + 1"
        using True f by simp
      then show ?thesis using abort True by auto
    next
      case go: False
      have eq: "rows_loop str1 str2 maxDistance i prev cur
                = rows_loop str1 str2 maxDistance (i + 1) c prev"
        using True f go by simp
      have "rows_loop str1 str2 maxDistance (i + 1) c prev =
           (if \<exists>k. i + 1 \<le> k \<and> k \<le> length str1 \<and> maxDistance < int (rowMin str1 str2 k)
            then maxDistance + 1 else int (levenshtein str1 str2))"
      proof (rule "1.IH" [OF True f [symmetric] refl go])
        show "1 \<le> i + 1" by simp
        show "i + 1 \<le> Suc (length str1)" using True by simp
        show "\<forall>j\<le>length str2. c ! j = levenshtein (take (i + 1 - 1) str1) (take j str2)"
          using c by simp
        show "length prev = Suc (length str2)" using "1.prems" by simp
        show "length c = Suc (length str2)" by (rule lc)
      qed
      moreover have "(\<exists>k. i + 1 \<le> k \<and> k \<le> length str1 \<and> maxDistance < int (rowMin str1 str2 k))
          \<longleftrightarrow> (\<exists>k. i \<le> k \<and> k \<le> length str1 \<and> maxDistance < int (rowMin str1 str2 k))"
        using go by (metis Suc_eq_plus1 Suc_leD Suc_leI le_neq_implies_less)
      ultimately show ?thesis using eq by simp
    qed
  qed
qed

lemma levenshteinDistanceWithLimit_rows:
  "levenshteinDistanceWithLimit s1 s2 maxDistance =
     (if \<exists>k. 1 \<le> k \<and> k \<le> length s1 \<and> maxDistance < int (rowMin s1 s2 k)
      then maxDistance + 1 else int (levenshtein s1 s2))"
proof -
  have "rows_loop s1 s2 maxDistance 1 (map (\<lambda>i. i) [0..<Suc (length s2)]) (replicate (Suc (length s2)) 0) =
     (if \<exists>k. 1 \<le> k \<and> k \<le> length s1 \<and> maxDistance < int (rowMin s1 s2 k)
      then maxDistance + 1 else int (levenshtein s1 s2))"
  proof (rule rows_loop_correct)
    show "\<forall>j\<le>length s2. map (\<lambda>i. i) [0..<Suc (length s2)] ! j = levenshtein (take (1 - 1) s1) (take j s2)"
    proof (intro allI impI)
      fix j assume "j \<le> length s2"
      then have "[0..<Suc (length s2)] ! j = j"
        by (metis add_0 le_imp_less_Suc nth_upt)
      then show "map (\<lambda>i. i) [0..<Suc (length s2)] ! j = levenshtein (take (1 - 1) s1) (take j s2)"
        using \<open>j \<le> length s2\<close> by simp
    qed
  qed simp_all
  then show ?thesis
    by (simp add: levenshteinDistanceWithLimit_def Let_def)
qed

lemma levenshteinDistanceWithLimit_within:
  "int (levenshtein s1 s2) \<le> maxDistance \<Longrightarrow>
     levenshteinDistanceWithLimit s1 s2 maxDistance = int (levenshtein s1 s2)"
proof -
  assume a: "int (levenshtein s1 s2) \<le> maxDistance"
  have "\<not> maxDistance < int (rowMin s1 s2 k)" for k
    using a rowMin_le [of s1 s2 k] by linarith
  then show ?thesis
    by (simp add: levenshteinDistanceWithLimit_rows)
qed

lemma levenshteinDistanceWithLimit_beyond:
  "maxDistance < int (levenshtein s1 s2) \<Longrightarrow>
     maxDistance < levenshteinDistanceWithLimit s1 s2 maxDistance"
  by (simp add: levenshteinDistanceWithLimit_rows)

lemma levenshteinDistanceWithLimit_sym:
  "(if levenshteinDistanceWithLimit s1 s2 d > d then None else Some (levenshteinDistanceWithLimit s1 s2 d))
   = (if levenshteinDistanceWithLimit s2 s1 d > d then None else Some (levenshteinDistanceWithLimit s2 s1 d))"
proof (cases "int (levenshtein s1 s2) \<le> d")
  case True
  then have "int (levenshtein s2 s1) \<le> d" by (simp add: levenshtein_sym)
  then show ?thesis
    using True by (simp add: levenshteinDistanceWithLimit_within levenshtein_sym)
next
  case False
  then have "d < int (levenshtein s1 s2)" "d < int (levenshtein s2 s1)"
    by (simp_all add: levenshtein_sym)
  then show ?thesis
    using levenshteinDistanceWithLimit_beyond [of d s1 s2]
      levenshteinDistanceWithLimit_beyond [of d s2 s1] by simp
qed

section \<open>Similarity score\<close>

text \<open>\<open>str[i]\<close>: the code unit at \<open>i\<close>, or \<open>undefined\<close> (here \<open>None\<close>) out of range.\<close>

definition charAt :: "string \<Rightarrow> nat \<Rightarrow> char option" where
  "charAt s i = (if i < length s then Some (s ! i) else None)"

text \<open>
  \<open>new Set(str.split(""))\<close> read back with \<open>Array.from\<close>: the distinct code units in
  the order of their first occurrence.
\<close>

definition setToArray :: "string \<Rightarrow> char list" where
  "setToArray s = fold (\<lambda>c acc. if c \<in> set acc then acc else acc @ [c]) s []"

text \<open>
  The quotient of two lengths; with an empty union JavaScript gives \<open>NaN\<close>, which is
  \<open>None\<close> here.
\<close>

definition jaccardSimilarity :: "string \<Rightarrow> string \<Rightarrow> rat option" where
  "jaccardSimilarity str1 str2 =
     (let arr1 = setToArray str1;
          arr2 = setToArray str2;
          intersection = filter (\<lambda>x. x \<in> set arr2) arr1;
          union = arr1 @ filter (\<lambda>x. x \<notin> set arr1) arr2
      in if length union = 0 then None
         else Some (of_nat (length intersection) / of_nat (length union)))"

text \<open>
  \<open>calculateOptimizedSimilarity\<close> of the script, computed without rounding: the
  threshold and the scores are exact rationals (\<open>0.85\<close> is \<open>85 / 100\<close>), lengths are
  natural numbers and the budget is the integer floor. This is the scorer of the matching
  run, which calls it with the threshold \<open>0.85\<close> only; for other thresholds the doubles of
  the script can round \<open>maxLength * (1 - threshold)\<close> across an integer, and the scorer
  with the rounding written out is \<open>calculateOptimizedSimilarityRounded\<close> below. A
  comparison with \<open>NaN\<close> is false, so a \<open>None\<close> Jaccard score does not take the
  rejecting branch.
\<close>

definition calculateOptimizedSimilarity :: "string \<Rightarrow> string \<Rightarrow> rat \<Rightarrow> rat" where
  "calculateOptimizedSimilarity str1 str2 threshold =
     (let lengthDiff = \<bar>int (length str1) - int (length str2)\<bar>;
          maxLength = max (length str1) (length str2)
      in if maxLength = 0 then 1
         else if of_int lengthDiff > of_nat maxLength * (1 - threshold) then 0
         else if charAt str1 0 \<noteq> charAt str2 0 then 0
         else if (case jaccardSimilarity str1 str2 of None \<Rightarrow> False | Some jaccardScore \<Rightarrow> jaccardScore < 6 / 10)
         then 0
         else (let maxDistance = \<lfloor>of_nat maxLength * (1 - threshold)\<rfloor>;
                   distance = levenshteinDistanceWithLimit str1 str2 maxDistance
               in if distance > maxDistance then 0
                  else (of_nat maxLength - of_int distance) / of_nat maxLength))"

lemma setToArray_fold:
  "set (fold (\<lambda>c acc. if c \<in> set acc then acc else acc @ [c]) s acc) = set acc \<union> set s
   \<and> (distinct acc \<longrightarrow> distinct (fold (\<lambda>c acc. if c \<in> set acc then acc else acc @ [c]) s acc))"
  by (induction s arbitrary: acc) auto

lemma set_setToArray: "set (setToArray s) = set s"
  by (simp add: setToArray_def setToArray_fold)

lemma distinct_setToArray: "distinct (setToArray s)"
  by (simp add: setToArray_def setToArray_fold)

lemma length_intersection:
  "length (filter (\<lambda>x. x \<in> set (setToArray s2)) (setToArray s1)) = card (set s1 \<inter> set s2)"
proof -
  have "distinct (filter (\<lambda>x. x \<in> set (setToArray s2)) (setToArray s1))"
    by (simp add: distinct_setToArray)
  then have "length (filter (\<lambda>x. x \<in> set (setToArray s2)) (setToArray s1))
      = card (set (filter (\<lambda>x. x \<in> set (setToArray s2)) (setToArray s1)))"
    by (simp only: distinct_card)
  also have "set (filter (\<lambda>x. x \<in> set (setToArray s2)) (setToArray s1)) = set s1 \<inter> set s2"
    by (auto simp: set_setToArray)
  finally show ?thesis .
qed

lemma length_union:
  "length (setToArray s1 @ filter (\<lambda>x. x \<notin> set (setToArray s1)) (setToArray s2))
     = card (set s1 \<union> set s2)"
proof -
  have "distinct (setToArray s1 @ filter (\<lambda>x. x \<notin> set (setToArray s1)) (setToArray s2))"
    by (auto simp: distinct_setToArray)
  then have "length (setToArray s1 @ filter (\<lambda>x. x \<notin> set (setToArray s1)) (setToArray s2))
      = card (set (setToArray s1 @ filter (\<lambda>x. x \<notin> set (setToArray s1)) (setToArray s2)))"
    by (simp only: distinct_card)
  also have "set (setToArray s1 @ filter (\<lambda>x. x \<notin> set (setToArray s1)) (setToArray s2))
      = set s1 \<union> set s2"
    by (auto simp: set_setToArray)
  finally show ?thesis .
qed

lemma jaccardSimilarity_card:
  "jaccardSimilarity s1 s2 =
     (if card (set s1 \<union> set s2) = 0 then None
      else Some (of_nat (card (set s1 \<inter> set s2)) / of_nat (card (set s1 \<union> set s2))))"
  unfolding jaccardSimilarity_def Let_def length_intersection length_union ..

lemma jaccardSimilarity_sym: "jaccardSimilarity s1 s2 = jaccardSimilarity s2 s1"
  by (simp add: jaccardSimilarity_card Int_commute Un_commute)

lemma score_zero_beyond:
  "\<lfloor>of_nat (max (length s1) (length s2)) * (1 - t)\<rfloor> < int (levenshtein s1 s2) \<Longrightarrow>
     calculateOptimizedSimilarity s1 s2 t = 0"
proof -
  assume a: "\<lfloor>of_nat (max (length s1) (length s2)) * (1 - t)\<rfloor> < int (levenshtein s1 s2)"
  have "max (length s1) (length s2) \<noteq> 0"
  proof
    assume "max (length s1) (length s2) = 0"
    then have "s1 = []" "s2 = []" by simp_all
    then show False using a by simp
  qed
  moreover have "\<lfloor>of_nat (max (length s1) (length s2)) * (1 - t)\<rfloor>
     < levenshteinDistanceWithLimit s1 s2 \<lfloor>of_nat (max (length s1) (length s2)) * (1 - t)\<rfloor>"
    using a by (rule levenshteinDistanceWithLimit_beyond)
  ultimately show ?thesis
    by (simp add: calculateOptimizedSimilarity_def Let_def)
qed

lemma lev_cat_cut: "levenshtein ''cat'' ''cut'' = 1"
  by code_simp

lemma rowMin_cat_cut: "rowMin ''cat'' ''cut'' 2 = 1"
  by (simp add: rowMin_def atLeastAtMost_upt)

text \<open>
  The early exit depends on the order of the arguments: with budget 0, no row of
  \<open>''a''\<close> against \<open>''abc''\<close> has a minimum above the budget and the full distance 2
  comes back, while the second row of \<open>''abc''\<close> against \<open>''a''\<close> stops the loop with
  \<open>maxDistance + 1 = 1\<close>. Both values are above the budget.
\<close>

lemma early_exit_depends_on_order:
  "levenshteinDistanceWithLimit ''a'' ''abc'' 0 = 2 \<and> levenshteinDistanceWithLimit ''abc'' ''a'' 0 = 1"
  by code_simp

section \<open>Claims on the similarity score\<close>

text \<open>
  Claim C4. For all strings and every budget \<open>maxDistance\<close> (also a negative one): when
  the Levenshtein distance is at most the budget, \<open>levenshteinDistanceWithLimit\<close> returns
  that distance; when it is larger, the returned value is larger than the budget; the
  value is \<open>maxDistance + 1\<close> as soon as the minimum of one row of the distance table
  exceeds the budget; and \<open>calculateOptimizedSimilarity\<close> at the threshold 0.85 of the
  matching run, which calls it with the budget \<open>\<lfloor>maxLength * (1 - 0.85)\<rfloor>\<close>, returns 0
  whenever the distance exceeds that budget.
\<close>

theorem C4_bounded_distance:
  "(int (levenshtein s1 s2) \<le> maxDistance \<longrightarrow>
      levenshteinDistanceWithLimit s1 s2 maxDistance = int (levenshtein s1 s2))
   \<and> (maxDistance < int (levenshtein s1 s2) \<longrightarrow>
      maxDistance < levenshteinDistanceWithLimit s1 s2 maxDistance)
   \<and> ((\<exists>k. 1 \<le> k \<and> k \<le> length s1 \<and> maxDistance < int (rowMin s1 s2 k)) \<longrightarrow>
      levenshteinDistanceWithLimit s1 s2 maxDistance = maxDistance + 1)
   \<and> (\<lfloor>of_nat (max (length s1) (length s2)) * (1 - (85 / 100 :: rat))\<rfloor> < int (levenshtein s1 s2) \<longrightarrow>
      calculateOptimizedSimilarity s1 s2 (85 / 100) = 0)"
proof (intro conjI impI)
  assume "int (levenshtein s1 s2) \<le> maxDistance"
  then show "levenshteinDistanceWithLimit s1 s2 maxDistance = int (levenshtein s1 s2)"
    by (rule levenshteinDistanceWithLimit_within)
next
  assume "maxDistance < int (levenshtein s1 s2)"
  then show "maxDistance < levenshteinDistanceWithLimit s1 s2 maxDistance"
    by (rule levenshteinDistanceWithLimit_beyond)
next
  assume "\<exists>k. 1 \<le> k \<and> k \<le> length s1 \<and> maxDistance < int (rowMin s1 s2 k)"
  then show "levenshteinDistanceWithLimit s1 s2 maxDistance = maxDistance + 1"
    by (simp only: levenshteinDistanceWithLimit_rows if_True)
next
  assume "\<lfloor>of_nat (max (length s1) (length s2)) * (1 - (85 / 100 :: rat))\<rfloor> < int (levenshtein s1 s2)"
  then show "calculateOptimizedSimilarity s1 s2 (85 / 100) = 0"
    by (rule score_zero_beyond)
qed

theorem C4_bounded_distance_witness:
  "int (levenshtein ''cat'' ''cut'') \<le> 1
   \<and> levenshteinDistanceWithLimit ''cat'' ''cut'' 1 = int (levenshtein ''cat'' ''cut'')
   \<and> 0 < int (levenshtein ''cat'' ''cut'')
   \<and> 0 < levenshteinDistanceWithLimit ''cat'' ''cut'' 0
   \<and> (\<exists>k. 1 \<le> k \<and> k \<le> length ''cat'' \<and> 0 < int (rowMin ''cat'' ''cut'' k))
   \<and> levenshteinDistanceWithLimit ''cat'' ''cut'' 0 = 0 + 1
   \<and> \<lfloor>of_nat (max (length ''cat'') (length ''cut'')) * (1 - (85 / 100 :: rat))\<rfloor>
        < int (levenshtein ''cat'' ''cut'')
   \<and> calculateOptimizedSimilarity ''cat'' ''cut'' (85 / 100) = 0"
proof -
  have h1: "int (levenshtein ''cat'' ''cut'') \<le> 1"
    by (simp add: lev_cat_cut)
  have h2: "0 < int (levenshtein ''cat'' ''cut'')"
    by (simp add: lev_cat_cut)
  have h3: "\<exists>k. 1 \<le> k \<and> k \<le> length ''cat'' \<and> 0 < int (rowMin ''cat'' ''cut'' k)"
    by (rule exI [of _ 2]) (simp add: rowMin_cat_cut)
  have h4: "\<lfloor>of_nat (max (length ''cat'') (length ''cut'')) * (1 - (85 / 100 :: rat))\<rfloor>
        < int (levenshtein ''cat'' ''cut'')"
    by (simp add: lev_cat_cut)
  show ?thesis
    using h1 h2 h3 h4 C4_bounded_distance [of "''cat''" "''cut''" 1]
      C4_bounded_distance [of "''cat''" "''cut''" 0]
    by blast
qed

section \<open>The score in double arithmetic\<close>

text \<open>
  The script computes the score with IEEE doubles: each arithmetic operation returns the
  exact result rounded to a double. \<open>roundDouble\<close> is that rounding on the rationals (the
  finite doubles are rationals): to the nearest number with a significand of 53 bits, ties
  to the even significand. The exponent is not bounded here, so subnormal results and
  overflow are left out.
\<close>

function bitLength :: "int \<Rightarrow> nat" where
  "bitLength n = (if n \<le> 0 then 0 else Suc (bitLength (n div 2)))"
  by pat_completeness auto
termination
  by (relation "measure nat") auto

definition roundToNearestEven :: "rat \<Rightarrow> int" where
  "roundToNearestEven q =
     (let f = \<lfloor>q\<rfloor>; r = q - of_int f
      in if r < 1 / 2 then f else if 1 / 2 < r then f + 1 else if even f then f else f + 1)"

definition pow2 :: "int \<Rightarrow> rat" where
  "pow2 e = (if 0 \<le> e then 2 ^ nat e else 1 / 2 ^ nat (- e))"

definition roundDouble :: "rat \<Rightarrow> rat" where
  "roundDouble x =
     (if x = 0 then 0
      else (let a = \<bar>x\<bar>;
                k = int (bitLength (fst (quotient_of a))) - int (bitLength (snd (quotient_of a)));
                e = (if pow2 k \<le> a then k else k - 1);
                m = roundToNearestEven (a / pow2 (e - 52))
            in sgn x * of_int m * pow2 (e - 52)))"

text \<open>
  \<open>jaccardSimilarity\<close> and \<open>calculateOptimizedSimilarity\<close> of the script with every
  rounding written out, for a rounding function \<open>rnd\<close>; with \<open>roundDouble\<close> for \<open>rnd\<close>
  and the value of a finite double for \<open>threshold\<close> this is the computation of the script.
  The product \<open>maxLength * (1 - threshold)\<close> is two rounded operations, the literal
  \<open>0.6\<close> is the double next to \<open>6 / 10\<close>, and the two quotients are rounded. Lengths,
  their difference, their maximum, \<open>Math.floor\<close>, the distance and all comparisons are
  exact in doubles, since the numbers involved are integers far below \<open>2 ^ 53\<close> or are
  compared as they are.
\<close>

definition jaccardSimilarityRounded :: "(rat \<Rightarrow> rat) \<Rightarrow> string \<Rightarrow> string \<Rightarrow> rat option" where
  "jaccardSimilarityRounded rnd str1 str2 =
     (let arr1 = setToArray str1;
          arr2 = setToArray str2;
          intersection = filter (\<lambda>x. x \<in> set arr2) arr1;
          union = arr1 @ filter (\<lambda>x. x \<notin> set arr1) arr2
      in if length union = 0 then None
         else Some (rnd (of_nat (length intersection) / of_nat (length union))))"

definition calculateOptimizedSimilarityRounded :: "(rat \<Rightarrow> rat) \<Rightarrow> string \<Rightarrow> string \<Rightarrow> rat \<Rightarrow> rat" where
  "calculateOptimizedSimilarityRounded rnd str1 str2 threshold =
     (let lengthDiff = \<bar>int (length str1) - int (length str2)\<bar>;
          maxLength = max (length str1) (length str2)
      in if maxLength = 0 then 1
         else if of_int lengthDiff > rnd (of_nat maxLength * rnd (1 - threshold)) then 0
         else if charAt str1 0 \<noteq> charAt str2 0 then 0
         else if (case jaccardSimilarityRounded rnd str1 str2 of
                    None \<Rightarrow> False | Some jaccardScore \<Rightarrow> jaccardScore < rnd (6 / 10))
         then 0
         else (let maxDistance = \<lfloor>rnd (of_nat maxLength * rnd (1 - threshold))\<rfloor>;
                   distance = levenshteinDistanceWithLimit str1 str2 maxDistance
               in if distance > maxDistance then 0
                  else rnd ((of_nat maxLength - of_int distance) / of_nat maxLength)))"

lemma jaccardSimilarityRounded_card:
  "jaccardSimilarityRounded rnd s1 s2 =
     (if card (set s1 \<union> set s2) = 0 then None
      else Some (rnd (of_nat (card (set s1 \<inter> set s2)) / of_nat (card (set s1 \<union> set s2)))))"
  unfolding jaccardSimilarityRounded_def Let_def length_intersection length_union ..

lemma jaccardSimilarityRounded_sym:
  "jaccardSimilarityRounded rnd s1 s2 = jaccardSimilarityRounded rnd s2 s1"
  by (simp add: jaccardSimilarityRounded_card Int_commute Un_commute)

text \<open>Without rounding this is the scorer of the previous section.\<close>

lemma unrounded_score:
  "calculateOptimizedSimilarityRounded (\<lambda>x. x) s1 s2 t = calculateOptimizedSimilarity s1 s2 t"
proof -
  have j: "jaccardSimilarityRounded (\<lambda>x. x) s1 s2 = jaccardSimilarity s1 s2"
    by (simp add: jaccardSimilarityRounded_def jaccardSimilarity_def)
  show ?thesis
    unfolding calculateOptimizedSimilarityRounded_def calculateOptimizedSimilarity_def j ..
qed

text \<open>
  Three thresholds at which the rounding decides. At \<open>0.9\<close> the double \<open>1 - 0.9\<close> is
  below \<open>1 / 10\<close>, so a length difference of 1 in 10 is rejected; at \<open>0.8\<close> the budget for
  length 5 is 0; at \<open>0.30000000000000004\<close> the product for length 10 rounds up to 7, so
  a distance of 7 is accepted and scores the double \<open>0.3\<close>.
\<close>

lemma rounded_score_at_nine_tenths:
  "calculateOptimizedSimilarityRounded roundDouble ''abcdefghij'' ''abcdefghi'' (roundDouble (9 / 10)) = 0"
  by code_simp

lemma rounded_score_at_eight_tenths:
  "calculateOptimizedSimilarityRounded roundDouble ''smith'' ''smyth'' (roundDouble (8 / 10)) = 0"
  by code_simp

lemma rounded_budget_seven:
  "\<lfloor>roundDouble (10 * roundDouble (1 - roundDouble (30000000000000004 / 100000000000000000)))\<rfloor> = 7
   \<and> calculateOptimizedSimilarityRounded roundDouble ''abbbbbbbba'' ''aaaaaaaaba''
        (roundDouble (30000000000000004 / 100000000000000000)) = roundDouble (3 / 10)"
  by code_simp

text \<open>
  Claim C5. The similarity score is symmetric in its two strings, for every threshold:
  the score in double arithmetic, for any rounding function. The raw value of
  \<open>levenshteinDistanceWithLimit\<close> may differ between the two orders (see
  \<open>early_exit_depends_on_order\<close>), but only above the budget, where the score is 0.
\<close>

theorem C5_similarity_symmetric:
  "calculateOptimizedSimilarityRounded rnd s1 s2 t = calculateOptimizedSimilarityRounded rnd s2 s1 t"
proof -
  define b where "b = rnd (of_nat (max (length s1) (length s2)) * rnd (1 - t))"
  have m: "max (length s2) (length s1) = max (length s1) (length s2)"
    by (rule max.commute)
  have a: "\<bar>int (length s2) - int (length s1)\<bar> = \<bar>int (length s1) - int (length s2)\<bar>"
    by (rule abs_minus_commute)
  have c: "(charAt s2 0 \<noteq> charAt s1 0) = (charAt s1 0 \<noteq> charAt s2 0)"
    by auto
  have l: "(if levenshteinDistanceWithLimit s1 s2 \<lfloor>b\<rfloor> > \<lfloor>b\<rfloor> then 0
            else rnd ((of_nat (max (length s1) (length s2))
                        - of_int (levenshteinDistanceWithLimit s1 s2 \<lfloor>b\<rfloor>))
                   / of_nat (max (length s1) (length s2))))
         = (if levenshteinDistanceWithLimit s2 s1 \<lfloor>b\<rfloor> > \<lfloor>b\<rfloor> then (0::rat)
            else rnd ((of_nat (max (length s1) (length s2))
                        - of_int (levenshteinDistanceWithLimit s2 s1 \<lfloor>b\<rfloor>))
                   / of_nat (max (length s1) (length s2))))"
    using levenshteinDistanceWithLimit_sym [of "\<lfloor>b\<rfloor>" s1 s2] by (auto split: if_splits)
  show ?thesis
    unfolding calculateOptimizedSimilarityRounded_def Let_def m a c
      jaccardSimilarityRounded_sym [of rnd s2 s1]
    using l unfolding b_def by simp
qed

section \<open>The matching run\<close>

text \<open>
  The part of \<open>main\<close> between reading the two sheets and painting the cells. Its input
  is what \<open>main\<close> has read by then: for every data row of the roster sheet the text of the
  cells \<open>Roster\<close>, \<open>FirstName\<close> and \<open>LastName\<close>, and for every data row of the activity
  sheet the text of the cell \<open>Schedule A\<close> (an empty cell is the empty string). Row 0 of
  both sheets is the header, so data rows are numbered from 1.

  \<open>RosterEntry\<close> and \<open>ActivityEntry\<close> are the same interface in the script.
\<close>

record Entry =
  normalizedName :: string
  rowIndex :: nat
  matched :: bool

type_synonym RosterEntry = Entry
type_synonym ActivityEntry = Entry

text \<open>The only exception the modelled part can raise: a property write on \<open>undefined\<close>.\<close>

datatype error = TypeError

definition scheduleATypes :: "string set" where
  "scheduleATypes = {''Schedule A'', ''Schedule A Monthly'', ''Weekly'', ''TriWeekly''}"

text \<open>
  The body of the loop over the roster rows: \<open>eligibleRosterNames.push\<close> and
  \<open>exactMatchMap.set\<close> for a row of an eligible roster type with a non-empty normalised
  name.
\<close>

definition rosterRow :: "RosterEntry list \<times> (string \<rightharpoonup> nat) \<Rightarrow> nat \<times> string \<times> string \<times> string
    \<Rightarrow> RosterEntry list \<times> (string \<rightharpoonup> nat)" where
  "rosterRow acc r =
     (let (eligibleRosterNames, exactMatchMap) = acc;
          (row, rosterCell, firstNameCell, lastNameCell) = r;
          rosterType = trim rosterCell
      in if rosterType \<in> scheduleATypes
         then (let firstName = cleanName firstNameCell;
                   lastName = cleanName lastNameCell;
                   normalizedName = normalizeName firstName lastName
               in if normalizedName \<noteq> []
                  then (let entryIndex = length eligibleRosterNames
                        in (eligibleRosterNames @
                              [\<lparr>normalizedName = normalizedName, rowIndex = row, matched = False\<rparr>],
                            exactMatchMap(normalizedName \<mapsto> entryIndex)))
                  else acc)
         else acc)"

definition buildRoster :: "(string \<times> string \<times> string) list \<Rightarrow> RosterEntry list \<times> (string \<rightharpoonup> nat)" where
  "buildRoster rosterRows =
     foldl rosterRow ([], Map.empty) (enumerate 1 rosterRows)"

text \<open>The body of the loop over the activity rows.\<close>

definition activityRow :: "ActivityEntry list \<Rightarrow> nat \<times> string \<Rightarrow> ActivityEntry list" where
  "activityRow scheduleANames r =
     (let (row, scheduledName) = r
      in if trim scheduledName \<noteq> []
         then (let cleanedName = cleanName scheduledName;
                   normalizedName = normalizeActivityName cleanedName
               in if normalizedName \<noteq> []
                  then scheduleANames @
                         [\<lparr>normalizedName = normalizedName, rowIndex = row, matched = False\<rparr>]
                  else scheduleANames)
         else scheduleANames)"

definition buildActivity :: "string list \<Rightarrow> ActivityEntry list" where
  "buildActivity activityRows =
     foldl activityRow [] (enumerate 1 activityRows)"

text \<open>
  The variables the two passes change. The entries are objects that the script mutates in
  place and shares between \<open>eligibleRosterNames\<close> and \<open>unmatchedRosterNames\<close>
  (likewise on the activity side): the two lists of the state are the store, and a
  filtered array is the list of the positions of its objects in the store.
\<close>

record MatchState =
  scheduleANames :: "ActivityEntry list"
  eligibleRosterNames :: "RosterEntry list"
  exactMatches :: nat
  fuzzyMatches :: nat

text \<open>\<open>entries[i].matched = true\<close>.\<close>

definition mark :: "nat \<Rightarrow> Entry list \<Rightarrow> Entry list" where
  "mark i xs = xs[i := (xs ! i)\<lparr>matched := True\<rparr>]"

text \<open>\<open>forEach\<close> with a callback that may throw.\<close>

fun forEachE :: "('s \<Rightarrow> 'a \<Rightarrow> error + 's) \<Rightarrow> 'a list \<Rightarrow> 's \<Rightarrow> error + 's" where
  "forEachE f [] st = Inr st"
| "forEachE f (x # xs) st = (case f st x of Inl e \<Rightarrow> Inl e | Inr st' \<Rightarrow> forEachE f xs st')"

text \<open>
  The callback of the first pass, for the activity entry at position \<open>a\<close>. The lookup does
  not read any \<open>matched\<close> flag.
\<close>

definition exactStep :: "(string \<rightharpoonup> nat) \<Rightarrow> MatchState \<Rightarrow> nat \<Rightarrow> error + MatchState" where
  "exactStep exactMatchMap st a =
     (case exactMatchMap (normalizedName (scheduleANames st ! a)) of
        None \<Rightarrow> Inr st
      | Some exactMatchIndex \<Rightarrow>
          if exactMatchIndex < length (eligibleRosterNames st)
          then Inr (st\<lparr>scheduleANames := mark a (scheduleANames st),
                       eligibleRosterNames := mark exactMatchIndex (eligibleRosterNames st),
                       exactMatches := exactMatches st + 1\<rparr>)
          else Inl TypeError)"

text \<open>
  The inner callback of the second pass, for the candidate at position \<open>index\<close> of
  \<open>unmatchedRosterNames\<close>, and the scan it belongs to, which starts from score 0 and
  index \<open>-1\<close>. The scan does not read any \<open>matched\<close> flag either.
\<close>

definition bestStep :: "string \<Rightarrow> RosterEntry list \<Rightarrow> rat \<times> int \<Rightarrow> nat \<times> nat \<Rightarrow> rat \<times> int" where
  "bestStep name roster best c =
     (let (bestMatchScore, bestMatchIndex) = best;
          (index, rosterEntry) = c;
          similarity = calculateOptimizedSimilarity name (normalizedName (roster ! rosterEntry)) (85 / 100)
      in if similarity > bestMatchScore then (similarity, int index)
         else (bestMatchScore, bestMatchIndex))"

definition findBest :: "string \<Rightarrow> RosterEntry list \<Rightarrow> nat list \<Rightarrow> rat \<times> int" where
  "findBest name roster unmatchedRosterNames =
     foldl (bestStep name roster) (0, - 1)
       (zip [0..<length unmatchedRosterNames] unmatchedRosterNames)"

text \<open>\<open>Array.prototype.findIndex\<close>: the first position that satisfies \<open>P\<close>, or \<open>-1\<close>.\<close>

fun findIndexFrom :: "('a \<Rightarrow> bool) \<Rightarrow> 'a list \<Rightarrow> nat \<Rightarrow> int" where
  "findIndexFrom P [] i = - 1"
| "findIndexFrom P (x # xs) i = (if P x then int i else findIndexFrom P xs (Suc i))"

definition findIndex :: "('a \<Rightarrow> bool) \<Rightarrow> 'a list \<Rightarrow> int" where
  "findIndex P xs = findIndexFrom P xs 0"

text \<open>
  The outer callback of the second pass, for the activity entry at position \<open>a\<close>: both
  flags are set when the best score is strictly above 0.85; the roster entry is marked
  through \<open>unmatchedRosterNames\<close> and once more through \<open>findIndex\<close> on its row index.
\<close>

definition fuzzyStep :: "nat list \<Rightarrow> MatchState \<Rightarrow> nat \<Rightarrow> error + MatchState" where
  "fuzzyStep unmatchedRosterNames st a =
     (let (bestMatchScore, bestMatchIndex) =
            findBest (normalizedName (scheduleANames st ! a)) (eligibleRosterNames st)
              unmatchedRosterNames
      in if bestMatchScore > 85 / 100
         then if 0 \<le> bestMatchIndex \<and> nat bestMatchIndex < length unmatchedRosterNames
              then (let r = unmatchedRosterNames ! nat bestMatchIndex;
                        roster = mark r (eligibleRosterNames st);
                        originalIndex = findIndex (\<lambda>entry. rowIndex entry = rowIndex (roster ! r)) roster;
                        roster = (if originalIndex \<noteq> - 1 then mark (nat originalIndex) roster
                                  else roster)
                    in Inr (st\<lparr>scheduleANames := mark a (scheduleANames st),
                                 eligibleRosterNames := roster,
                                 fuzzyMatches := fuzzyMatches st + 1\<rparr>))
              else Inl TypeError
         else Inr st)"

text \<open>The loop over the batches of 50 unmatched activity entries; \<open>slice\<close> is \<open>Array.prototype.slice\<close>.\<close>

definition BATCH_SIZE :: nat where
  "BATCH_SIZE = 50"

definition slice :: "'a list \<Rightarrow> nat \<Rightarrow> nat \<Rightarrow> 'a list" where
  "slice xs b e = take (e - b) (drop b xs)"

function batchLoop :: "nat \<Rightarrow> nat list \<Rightarrow> nat list \<Rightarrow> MatchState \<Rightarrow> error + MatchState" where
  "batchLoop batchStart unmatchedActivityNames unmatchedRosterNames st =
     (if batchStart < length unmatchedActivityNames
      then (let batch = slice unmatchedActivityNames batchStart (batchStart + BATCH_SIZE)
            in case forEachE (fuzzyStep unmatchedRosterNames) batch st of
                 Inl e \<Rightarrow> Inl e
               | Inr st' \<Rightarrow>
                   batchLoop (batchStart + BATCH_SIZE) unmatchedActivityNames unmatchedRosterNames st')
      else Inr st)"
  by pat_completeness auto
termination
  by (relation "measure (\<lambda>(batchStart, unmatchedActivityNames, unmatchedRosterNames, st).
        length unmatchedActivityNames - batchStart)") (auto simp: BATCH_SIZE_def)

text \<open>\<open>entries.filter((entry) => !entry.matched)\<close>, as positions in the store.\<close>

definition unmatchedRefs :: "Entry list \<Rightarrow> nat list" where
  "unmatchedRefs entries = filter (\<lambda>i. \<not> matched (entries ! i)) [0..<length entries]"

definition exactPass :: "(string \<rightharpoonup> nat) \<Rightarrow> MatchState \<Rightarrow> error + MatchState" where
  "exactPass exactMatchMap st =
     forEachE (exactStep exactMatchMap) [0..<length (scheduleANames st)] st"

definition fuzzyPass :: "MatchState \<Rightarrow> error + MatchState" where
  "fuzzyPass st =
     (let unmatchedActivityNames = unmatchedRefs (scheduleANames st);
          unmatchedRosterNames = unmatchedRefs (eligibleRosterNames st)
      in batchLoop 0 unmatchedActivityNames unmatchedRosterNames st)"

definition initialState :: "(string \<times> string \<times> string) list \<Rightarrow> string list \<Rightarrow> MatchState" where
  "initialState rosterRows activityRows =
     \<lparr>scheduleANames = buildActivity activityRows,
      eligibleRosterNames = fst (buildRoster rosterRows),
      exactMatches = 0, fuzzyMatches = 0\<rparr>"

definition runMatching :: "(string \<times> string \<times> string) list \<Rightarrow> string list \<Rightarrow> error + MatchState" where
  "runMatching rosterRows activityRows =
     (let exactMatchMap = snd (buildRoster rosterRows);
          st = initialState rosterRows activityRows
      in case exactPass exactMatchMap st of
           Inl e \<Rightarrow> Inl e
         | Inr st \<Rightarrow> fuzzyPass st)"

text \<open>
  What the script reports after the two passes: the numbers of its log lines (exact
  matches, fuzzy matches, \<open>scheduleANames.length - exactMatches - fuzzyMatches\<close> unmatched
  entries, \<open>exactMatches + fuzzyMatches\<close> matched roster entries), the rows of the
  unmatched activity entries, which it fills pink, and the rows of the matched roster
  entries, whose text it turns red.
\<close>

record Report =
  exactLogged :: nat
  fuzzyLogged :: nat
  unmatchedLogged :: int
  matchedRosterLogged :: nat
  pinkRows :: "nat list"
  redRows :: "nat list"

definition report :: "MatchState \<Rightarrow> Report" where
  "report st =
     \<lparr>exactLogged = exactMatches st,
      fuzzyLogged = fuzzyMatches st,
      unmatchedLogged = int (length (scheduleANames st)) - int (exactMatches st) - int (fuzzyMatches st),
      matchedRosterLogged = exactMatches st + fuzzyMatches st,
      pinkRows = map rowIndex (filter (\<lambda>entry. \<not> matched entry) (scheduleANames st)),
      redRows = map rowIndex (filter matched (eligibleRosterNames st))\<rparr>"

subsection \<open>Marking an entry\<close>

lemma length_mark: "length (mark i xs) = length xs"
  by (simp add: mark_def)

lemma nth_mark:
  "mark i xs ! j = (if i = j \<and> j < length xs then (xs ! j)\<lparr>matched := True\<rparr> else xs ! j)"
proof (cases "i < length xs")
  case True
  then show ?thesis by (auto simp: mark_def)
next
  case False
  then have "length xs \<le> i" by simp
  then show ?thesis by (auto simp: mark_def list_update_beyond)
qed

lemma name_nth_mark: "normalizedName (mark i xs ! j) = normalizedName (xs ! j)"
  by (simp add: nth_mark)

lemma row_nth_mark: "rowIndex (mark i xs ! j) = rowIndex (xs ! j)"
  by (simp add: nth_mark)

lemma matched_nth_mark: "j < length xs \<Longrightarrow> matched (mark i xs ! j) = (matched (xs ! j) \<or> i = j)"
  by (simp add: nth_mark)

lemma names_mark: "map normalizedName (mark i xs) = map normalizedName xs"
  by (rule nth_equalityI) (simp_all add: length_mark name_nth_mark)

lemma rows_mark: "map rowIndex (mark i xs) = map rowIndex xs"
  by (rule nth_equalityI) (simp_all add: length_mark row_nth_mark)

definition cnt :: "Entry list \<Rightarrow> nat" where
  "cnt xs = length (filter matched xs)"

lemma cnt_append: "cnt (xs @ ys) = cnt xs + cnt ys"
  by (simp add: cnt_def)

lemma mark_split:
  "i < length xs \<Longrightarrow> mark i xs = take i xs @ (xs ! i)\<lparr>matched := True\<rparr> # drop (Suc i) xs"
  by (simp add: mark_def upd_conv_take_nth_drop)

lemma cnt_mark_new:
  assumes "i < length xs" "\<not> matched (xs ! i)"
  shows "cnt (mark i xs) = Suc (cnt xs)"
proof -
  have "cnt xs = cnt (take i xs @ xs ! i # drop (Suc i) xs)"
    using assms(1) by (simp add: id_take_nth_drop [symmetric])
  then have "cnt xs = cnt (take i xs) + cnt (drop (Suc i) xs)"
    using assms(2) by (simp add: cnt_def)
  moreover have "cnt (mark i xs) = cnt (take i xs) + Suc (cnt (drop (Suc i) xs))"
    using assms(1) by (simp add: mark_split cnt_def)
  ultimately show ?thesis by simp
qed

lemma cnt_mark_le: "cnt (mark i xs) \<le> Suc (cnt xs)"
proof (cases "i < length xs")
  case True
  have "cnt xs = cnt (take i xs @ xs ! i # drop (Suc i) xs)"
    using True by (simp add: id_take_nth_drop [symmetric])
  then have "cnt (take i xs) + cnt (drop (Suc i) xs) \<le> cnt xs"
    by (simp add: cnt_def)
  moreover have "cnt (mark i xs) = cnt (take i xs) + Suc (cnt (drop (Suc i) xs))"
    using True by (simp add: mark_split cnt_def)
  ultimately show ?thesis by simp
next
  case False
  then have "length xs \<le> i" by simp
  then have "mark i xs = xs" by (simp add: mark_def list_update_beyond)
  then show ?thesis by simp
qed

subsection \<open>Both passes fold one pairing step\<close>

text \<open>
  For the proofs: a step that marks the activity entry \<open>k\<close> and the roster entry \<open>sel k\<close>
  when there is one. Each pass is shown below to be a fold of this step, for a selection
  \<open>sel\<close> that does not depend on the flags.
\<close>

definition applySel :: "(nat \<Rightarrow> nat option) \<Rightarrow> Entry list \<times> Entry list \<Rightarrow> nat \<Rightarrow> Entry list \<times> Entry list" where
  "applySel sel p k = (case sel k of None \<Rightarrow> p | Some i \<Rightarrow> (mark k (fst p), mark i (snd p)))"

definition hits :: "(nat \<Rightarrow> nat option) \<Rightarrow> nat list \<Rightarrow> nat" where
  "hits sel ks = length (filter (\<lambda>k. sel k \<noteq> None) ks)"

lemma fold_names:
  "map normalizedName (fst (foldl (applySel sel) p ks)) = map normalizedName (fst p)
   \<and> map normalizedName (snd (foldl (applySel sel) p ks)) = map normalizedName (snd p)
   \<and> map rowIndex (fst (foldl (applySel sel) p ks)) = map rowIndex (fst p)
   \<and> map rowIndex (snd (foldl (applySel sel) p ks)) = map rowIndex (snd p)"
proof (induction ks arbitrary: p)
  case Nil
  then show ?case by simp
next
  case (Cons k ks)
  show ?case
    using Cons.IH [of "applySel sel p k"]
    by (simp add: applySel_def names_mark rows_mark split: option.splits)
qed

lemma fold_length:
  "length (fst (foldl (applySel sel) p ks)) = length (fst p)
   \<and> length (snd (foldl (applySel sel) p ks)) = length (snd p)"
  using fold_names [of sel p ks] by (metis length_map)

lemma fold_matched_fst:
  "j < length (fst p) \<Longrightarrow>
     matched (fst (foldl (applySel sel) p ks) ! j)
       = (matched (fst p ! j) \<or> (j \<in> set ks \<and> sel j \<noteq> None))"
proof (induction ks arbitrary: p)
  case Nil
  then show ?case by simp
next
  case (Cons k ks)
  have "j < length (fst (applySel sel p k))"
    using Cons.prems by (simp add: applySel_def length_mark split: option.splits)
  from Cons.IH [OF this] show ?case
    using Cons.prems by (auto simp: applySel_def matched_nth_mark split: option.splits)
qed

lemma fold_matched_snd:
  "i < length (snd p) \<Longrightarrow>
     matched (snd (foldl (applySel sel) p ks) ! i)
       = (matched (snd p ! i) \<or> (\<exists>k \<in> set ks. sel k = Some i))"
proof (induction ks arbitrary: p)
  case Nil
  then show ?case by simp
next
  case (Cons k ks)
  have "i < length (snd (applySel sel p k))"
    using Cons.prems by (simp add: applySel_def length_mark split: option.splits)
  from Cons.IH [OF this] show ?case
    using Cons.prems by (auto simp: applySel_def matched_nth_mark split: option.splits)
qed

lemma fold_cnt_fst:
  "distinct ks \<Longrightarrow> \<forall>k \<in> set ks. k < length (fst p) \<and> \<not> matched (fst p ! k) \<Longrightarrow>
     cnt (fst (foldl (applySel sel) p ks)) = cnt (fst p) + hits sel ks"
proof (induction ks arbitrary: p)
  case Nil
  then show ?case by (simp add: hits_def)
next
  case (Cons k ks)
  have k: "k < length (fst p)" "\<not> matched (fst p ! k)" "k \<notin> set ks" "distinct ks"
    using Cons.prems by simp_all
  have rest: "\<forall>k' \<in> set ks. k' < length (fst (applySel sel p k)) \<and> \<not> matched (fst (applySel sel p k) ! k')"
    using Cons.prems by (auto simp: applySel_def length_mark matched_nth_mark split: option.splits)
  have "cnt (fst (applySel sel p k)) = cnt (fst p) + (if sel k = None then 0 else 1)"
    using k by (auto simp: applySel_def cnt_mark_new)
  then show ?case
    using Cons.IH [OF k(4) rest] by (simp add: hits_def)
qed

lemma fold_cnt_snd:
  "cnt (snd (foldl (applySel sel) p ks)) \<le> cnt (snd p) + hits sel ks"
proof (induction ks arbitrary: p)
  case Nil
  then show ?case by (simp add: hits_def)
next
  case (Cons k ks)
  have "cnt (snd (applySel sel p k)) \<le> cnt (snd p) + (if sel k = None then 0 else 1)"
    using cnt_mark_le by (auto simp: applySel_def)
  moreover have "hits sel (k # ks) = (if sel k = None then 0 else 1) + hits sel ks"
    by (simp add: hits_def)
  ultimately show ?case
    using Cons.IH [of "applySel sel p k"] by simp
qed

lemma mark_idem: "mark i (mark i xs) = mark i xs"
  by (rule nth_equalityI) (auto simp: length_mark nth_mark)

lemma forEachE_append:
  "forEachE f (xs @ ys) st =
     (case forEachE f xs st of Inl e \<Rightarrow> Inl e | Inr st' \<Rightarrow> forEachE f ys st')"
  by (induction xs arbitrary: st) (auto split: sum.splits)

lemma batchLoop_forEachE:
  "batchLoop b ua ur st = forEachE (fuzzyStep ur) (drop b ua) st"
proof (induction b ua ur st rule: batchLoop.induct)
  case (1 b ua ur st)
  show ?case
  proof (cases "b < length ua")
    case False
    then show ?thesis by simp
  next
    case True
    have split: "drop b ua = slice ua b (b + BATCH_SIZE) @ drop (b + BATCH_SIZE) ua"
      by (metis add.commute add_diff_cancel_left' append_take_drop_id drop_drop slice_def)
    show ?thesis
    proof (cases "forEachE (fuzzyStep ur) (slice ua b (b + BATCH_SIZE)) st")
      case (Inl e)
      then show ?thesis
        using True by (subst split) (simp add: forEachE_append)
    next
      case (Inr st')
      have "batchLoop (b + BATCH_SIZE) ua ur st' = forEachE (fuzzyStep ur) (drop (b + BATCH_SIZE) ua) st'"
        using "1.IH" [OF True refl Inr] .
      then show ?thesis
        using True Inr by (subst split) (simp add: forEachE_append)
    qed
  qed
qed

subsection \<open>The best candidate\<close>

lemma findBest_snoc:
  "findBest name roster (xs @ [x]) = bestStep name roster (findBest name roster xs) (length xs, x)"
  by (simp add: findBest_def)

lemma findBest_props:
  assumes "findBest name roster ur = (s, idx)"
  shows "(\<forall>j < length ur.
            calculateOptimizedSimilarity name (normalizedName (roster ! (ur ! j))) (85 / 100) \<le> s)
       \<and> (if idx = - 1 then s = 0
          else 0 \<le> idx \<and> nat idx < length ur \<and> 0 < s
             \<and> calculateOptimizedSimilarity name (normalizedName (roster ! (ur ! nat idx))) (85 / 100) = s
             \<and> (\<forall>j < nat idx.
                  calculateOptimizedSimilarity name (normalizedName (roster ! (ur ! j))) (85 / 100) < s))"
  using assms
proof (induction ur arbitrary: s idx rule: rev_induct)
  case Nil
  then show ?case by (simp add: findBest_def)
next
  case (snoc x xs)
  obtain s0 i0 where f0: "findBest name roster xs = (s0, i0)"
    by (cases "findBest name roster xs")
  define sim where "sim = calculateOptimizedSimilarity name (normalizedName (roster ! x)) (85 / 100)"
  note ih = snoc.IH [OF f0]
  have step: "(s, idx) = (if sim > s0 then (sim, int (length xs)) else (s0, i0))"
    using snoc.prems f0 by (auto simp: findBest_snoc bestStep_def sim_def Let_def)
  have nth_old: "(xs @ [x]) ! j = xs ! j" if "j < length xs" for j
    using that by (simp add: nth_append)
  show ?case
  proof (cases "sim > s0")
    case True
    then have eq: "s = sim" "idx = int (length xs)" using step by simp_all
    have below: "\<forall>j < length xs.
        calculateOptimizedSimilarity name (normalizedName (roster ! (xs ! j))) (85 / 100) < s"
      using ih True eq by fastforce
    have pos: "0 < s"
      using ih True eq by (auto split: if_splits)
    have "\<forall>j < length (xs @ [x]).
        calculateOptimizedSimilarity name (normalizedName (roster ! ((xs @ [x]) ! j))) (85 / 100) \<le> s"
    proof (intro allI impI)
      fix j assume "j < length (xs @ [x])"
      then consider "j < length xs" | "j = length xs" by fastforce
      then show "calculateOptimizedSimilarity name (normalizedName (roster ! ((xs @ [x]) ! j))) (85 / 100) \<le> s"
      proof cases
        case 1
        then show ?thesis using below by (simp add: nth_old less_imp_le)
      next
        case 2
        then show ?thesis using eq by (simp add: sim_def)
      qed
    qed
    moreover have "calculateOptimizedSimilarity name
        (normalizedName (roster ! ((xs @ [x]) ! nat idx))) (85 / 100) = s"
      using eq by (simp add: sim_def)
    moreover have "\<forall>j < nat idx.
        calculateOptimizedSimilarity name (normalizedName (roster ! ((xs @ [x]) ! j))) (85 / 100) < s"
      using below eq by (simp add: nth_old)
    ultimately show ?thesis
      using eq pos by simp
  next
    case False
    then have eq: "s = s0" "idx = i0" using step by simp_all
    have "\<forall>j < length (xs @ [x]).
        calculateOptimizedSimilarity name (normalizedName (roster ! ((xs @ [x]) ! j))) (85 / 100) \<le> s"
    proof (intro allI impI)
      fix j assume "j < length (xs @ [x])"
      then consider "j < length xs" | "j = length xs" by fastforce
      then show "calculateOptimizedSimilarity name (normalizedName (roster ! ((xs @ [x]) ! j))) (85 / 100) \<le> s"
      proof cases
        case 1
        then show ?thesis using ih eq by (simp add: nth_old)
      next
        case 2
        then show ?thesis using False eq by (simp add: sim_def)
      qed
    qed
    moreover have "idx \<noteq> - 1 \<Longrightarrow> nat idx < length xs"
      using ih eq by (auto split: if_splits)
    ultimately show ?thesis
      using ih eq by (auto simp: nth_old split: if_splits)
  qed
qed

lemma findBest_mark: "findBest name (mark i roster) ur = findBest name roster ur"
proof -
  have "bestStep name (mark i roster) = bestStep name roster"
    by (intro ext) (simp add: bestStep_def name_nth_mark)
  then show ?thesis by (simp add: findBest_def)
qed

lemma findIndexFrom_distinct:
  "distinct (map f xs) \<Longrightarrow> r < length xs \<Longrightarrow>
     findIndexFrom (\<lambda>e. f e = f (xs ! r)) xs i = int (i + r)"
proof (induction xs arbitrary: r i)
  case Nil
  then show ?case by simp
next
  case (Cons x xs)
  show ?case
  proof (cases r)
    case 0
    then show ?thesis by simp
  next
    case (Suc r')
    then have r': "r' < length xs" using Cons.prems by simp
    then have "f (xs ! r') \<in> set (map f xs)" by simp
    then have "f x \<noteq> f (xs ! r')" using Cons.prems(1) by auto
    moreover have "findIndexFrom (\<lambda>e. f e = f (xs ! r')) xs (Suc i) = int (Suc i + r')"
      using Cons.IH [OF _ r'] Cons.prems(1) by simp
    ultimately show ?thesis using Suc by simp
  qed
qed

lemma findIndex_distinct:
  "distinct (map f xs) \<Longrightarrow> r < length xs \<Longrightarrow> findIndex (\<lambda>e. f e = f (xs ! r)) xs = int r"
  by (simp add: findIndex_def findIndexFrom_distinct)

subsection \<open>The exact pass as a fold\<close>

definition selExact :: "(string \<rightharpoonup> nat) \<Rightarrow> Entry list \<Rightarrow> nat \<Rightarrow> nat option" where
  "selExact exactMatchMap names k = exactMatchMap (normalizedName (names ! k))"

lemma selExact_mark: "selExact M (mark i names) = selExact M names"
  by (intro ext) (simp add: selExact_def name_nth_mark)

lemma exact_fold:
  assumes "\<And>k i. M k = Some i \<Longrightarrow> i < length (eligibleRosterNames st)"
  shows "forEachE (exactStep M) ks st =
           Inr (st\<lparr>scheduleANames :=
                      fst (foldl (applySel (selExact M (scheduleANames st)))
                             (scheduleANames st, eligibleRosterNames st) ks),
                    eligibleRosterNames :=
                      snd (foldl (applySel (selExact M (scheduleANames st)))
                             (scheduleANames st, eligibleRosterNames st) ks),
                    exactMatches := exactMatches st + hits (selExact M (scheduleANames st)) ks\<rparr>)"
  using assms
proof (induction ks arbitrary: st)
  case Nil
  then show ?case by (simp add: hits_def)
next
  case (Cons k ks)
  show ?case
  proof (cases "M (normalizedName (scheduleANames st ! k))")
    case None
    then have "exactStep M st k = Inr st"
      by (simp add: exactStep_def)
    moreover have "applySel (selExact M (scheduleANames st))
        (scheduleANames st, eligibleRosterNames st) k = (scheduleANames st, eligibleRosterNames st)"
      using None by (simp add: applySel_def selExact_def)
    moreover have "hits (selExact M (scheduleANames st)) (k # ks)
        = hits (selExact M (scheduleANames st)) ks"
      using None by (simp add: hits_def selExact_def)
    ultimately show ?thesis
      using Cons.IH [of st] Cons.prems by simp
  next
    case (Some i)
    define st' where "st' = st\<lparr>scheduleANames := mark k (scheduleANames st),
                       eligibleRosterNames := mark i (eligibleRosterNames st),
                       exactMatches := exactMatches st + 1\<rparr>"
    have i: "i < length (eligibleRosterNames st)"
      using Some Cons.prems by blast
    have step: "exactStep M st k = Inr st'"
      using Some i by (simp add: exactStep_def st'_def)
    have ap: "applySel (selExact M (scheduleANames st))
        (scheduleANames st, eligibleRosterNames st) k = (scheduleANames st', eligibleRosterNames st')"
      using Some by (simp add: applySel_def selExact_def st'_def)
    have hi: "hits (selExact M (scheduleANames st)) (k # ks)
        = Suc (hits (selExact M (scheduleANames st)) ks)"
      using Some by (simp add: hits_def selExact_def)
    have sel: "selExact M (scheduleANames st') = selExact M (scheduleANames st)"
      by (simp add: st'_def selExact_mark)
    have "\<And>k i. M k = Some i \<Longrightarrow> i < length (eligibleRosterNames st')"
      using Cons.prems by (simp add: st'_def length_mark)
    from Cons.IH [OF this] show ?thesis
      using step ap hi sel by (simp add: st'_def)
  qed
qed

subsection \<open>The fuzzy pass as a fold\<close>

definition selFuzzy :: "Entry list \<Rightarrow> Entry list \<Rightarrow> nat list \<Rightarrow> nat \<Rightarrow> nat option" where
  "selFuzzy names roster ur k =
     (if fst (findBest (normalizedName (names ! k)) roster ur) > 85 / 100
      then Some (ur ! nat (snd (findBest (normalizedName (names ! k)) roster ur)))
      else None)"

lemma selFuzzy_mark: "selFuzzy (mark i names) (mark r roster) ur = selFuzzy names roster ur"
  by (intro ext) (simp add: selFuzzy_def name_nth_mark findBest_mark)

lemma findBest_index:
  assumes "fst (findBest name roster ur) > 85 / 100"
  shows "0 \<le> snd (findBest name roster ur) \<and> nat (snd (findBest name roster ur)) < length ur"
proof -
  obtain s idx where f: "findBest name roster ur = (s, idx)"
    by (cases "findBest name roster ur")
  then have "idx \<noteq> - 1"
    using findBest_props [OF f] assms by auto
  then show ?thesis
    using findBest_props [OF f] f by simp
qed

lemma fuzzyStep_apply:
  assumes d: "distinct (map rowIndex (eligibleRosterNames st))"
    and ur: "\<forall>r \<in> set ur. r < length (eligibleRosterNames st)"
  shows "fuzzyStep ur st a =
     Inr (st\<lparr>scheduleANames :=
               fst (applySel (selFuzzy (scheduleANames st) (eligibleRosterNames st) ur)
                      (scheduleANames st, eligibleRosterNames st) a),
             eligibleRosterNames :=
               snd (applySel (selFuzzy (scheduleANames st) (eligibleRosterNames st) ur)
                      (scheduleANames st, eligibleRosterNames st) a),
             fuzzyMatches := fuzzyMatches st
               + hits (selFuzzy (scheduleANames st) (eligibleRosterNames st) ur) [a]\<rparr>)"
proof -
  obtain s idx where f: "findBest (normalizedName (scheduleANames st ! a)) (eligibleRosterNames st) ur
      = (s, idx)"
    by (cases "findBest (normalizedName (scheduleANames st ! a)) (eligibleRosterNames st) ur")
  show ?thesis
  proof (cases "s > 85 / 100")
    case False
    then have "fuzzyStep ur st a = Inr st"
      using f by (simp add: fuzzyStep_def)
    moreover have "selFuzzy (scheduleANames st) (eligibleRosterNames st) ur a = None"
      using f False by (simp add: selFuzzy_def)
    ultimately show ?thesis
      by (simp add: applySel_def hits_def)
  next
    case True
    then have idx: "0 \<le> idx" "nat idx < length ur"
      using findBest_index [of "normalizedName (scheduleANames st ! a)" "eligibleRosterNames st" ur] f
      by simp_all
    define r where "r = ur ! nat idx"
    have r: "r < length (eligibleRosterNames st)"
      using idx ur by (simp add: r_def)
    have "findIndex (\<lambda>entry. rowIndex entry = rowIndex (mark r (eligibleRosterNames st) ! r))
            (mark r (eligibleRosterNames st)) = int r"
      using d r by (intro findIndex_distinct) (simp_all add: rows_mark length_mark)
    then have "fuzzyStep ur st a =
        Inr (st\<lparr>scheduleANames := mark a (scheduleANames st),
                eligibleRosterNames := mark r (eligibleRosterNames st),
                fuzzyMatches := fuzzyMatches st + 1\<rparr>)"
      using f True idx by (simp add: fuzzyStep_def Let_def r_def [symmetric] mark_idem)
    moreover have "selFuzzy (scheduleANames st) (eligibleRosterNames st) ur a = Some r"
      using f True by (simp add: selFuzzy_def r_def)
    ultimately show ?thesis
      by (simp add: applySel_def hits_def)
  qed
qed

lemma fuzzy_fold:
  assumes "distinct (map rowIndex (eligibleRosterNames st))"
    and "\<forall>r \<in> set ur. r < length (eligibleRosterNames st)"
  shows "forEachE (fuzzyStep ur) ks st =
     Inr (st\<lparr>scheduleANames :=
               fst (foldl (applySel (selFuzzy (scheduleANames st) (eligibleRosterNames st) ur))
                      (scheduleANames st, eligibleRosterNames st) ks),
             eligibleRosterNames :=
               snd (foldl (applySel (selFuzzy (scheduleANames st) (eligibleRosterNames st) ur))
                      (scheduleANames st, eligibleRosterNames st) ks),
             fuzzyMatches := fuzzyMatches st
               + hits (selFuzzy (scheduleANames st) (eligibleRosterNames st) ur) ks\<rparr>)"
  using assms
proof (induction ks arbitrary: st)
  case Nil
  then show ?case by (simp add: hits_def)
next
  case (Cons k ks)
  let ?sel = "selFuzzy (scheduleANames st) (eligibleRosterNames st) ur"
  define st' where "st' = st\<lparr>scheduleANames :=
               fst (applySel ?sel (scheduleANames st, eligibleRosterNames st) k),
             eligibleRosterNames :=
               snd (applySel ?sel (scheduleANames st, eligibleRosterNames st) k),
             fuzzyMatches := fuzzyMatches st + hits ?sel [k]\<rparr>"
  have step: "fuzzyStep ur st k = Inr st'"
    unfolding st'_def using Cons.prems by (rule fuzzyStep_apply)
  have sel: "selFuzzy (scheduleANames st') (eligibleRosterNames st') ur = ?sel"
    by (cases "?sel k") (simp_all add: st'_def applySel_def selFuzzy_mark)
  have d': "distinct (map rowIndex (eligibleRosterNames st'))"
    using Cons.prems(1) by (cases "?sel k") (simp_all add: st'_def applySel_def rows_mark)
  have ur': "\<forall>r \<in> set ur. r < length (eligibleRosterNames st')"
    using Cons.prems(2) by (cases "?sel k") (simp_all add: st'_def applySel_def length_mark)
  have pair: "(scheduleANames st', eligibleRosterNames st')
      = applySel ?sel (scheduleANames st, eligibleRosterNames st) k"
    by (simp add: st'_def)
  have hi: "hits ?sel (k # ks) = hits ?sel [k] + hits ?sel ks"
    by (simp add: hits_def)
  show ?case
    using Cons.IH [OF d' ur'] step
    by (simp add: sel pair [symmetric] hi) (simp add: st'_def)
qed

subsection \<open>The entries built from the rows\<close>

lemma enumerate_snoc: "enumerate 1 (rows @ [r]) = enumerate 1 rows @ [(Suc (length rows), r)]"
  by (simp add: enumerate_append_eq)

lemma buildRoster_snoc:
  "buildRoster (rows @ [r]) = rosterRow (buildRoster rows) (Suc (length rows), r)"
  unfolding buildRoster_def enumerate_snoc by simp

lemma buildActivity_snoc:
  "buildActivity (rows @ [r]) = activityRow (buildActivity rows) (Suc (length rows), r)"
  unfolding buildActivity_def enumerate_snoc by simp

definition lastWith :: "Entry list \<Rightarrow> string \<Rightarrow> nat \<Rightarrow> bool" where
  "lastWith entries k i \<longleftrightarrow>
     i < length entries \<and> normalizedName (entries ! i) = k
     \<and> (\<forall>j < length entries. normalizedName (entries ! j) = k \<longrightarrow> j \<le> i)"

lemma lastWith_snoc_same:
  "lastWith (entries @ [e]) (normalizedName e) i \<longleftrightarrow> i = length entries"
  unfolding lastWith_def
proof
  assume a: "i < length (entries @ [e]) \<and> normalizedName ((entries @ [e]) ! i) = normalizedName e
     \<and> (\<forall>j < length (entries @ [e]). normalizedName ((entries @ [e]) ! j) = normalizedName e \<longrightarrow> j \<le> i)"
  then have "length entries \<le> i"
    by (metis length_append_singleton lessI nth_append_length)
  moreover have "i < Suc (length entries)" using a by simp
  ultimately show "i = length entries" by simp
next
  assume "i = length entries"
  then show "i < length (entries @ [e]) \<and> normalizedName ((entries @ [e]) ! i) = normalizedName e
     \<and> (\<forall>j < length (entries @ [e]). normalizedName ((entries @ [e]) ! j) = normalizedName e \<longrightarrow> j \<le> i)"
    by simp
qed

lemma lastWith_snoc_other:
  assumes "normalizedName e \<noteq> k"
  shows "lastWith (entries @ [e]) k i \<longleftrightarrow> lastWith entries k i"
proof
  assume a: "lastWith (entries @ [e]) k i"
  then have "i \<noteq> length entries"
    using assms by (auto simp: lastWith_def)
  then have i: "i < length entries"
    using a by (simp add: lastWith_def)
  then show "lastWith entries k i"
    using a by (auto simp: lastWith_def nth_append less_Suc_eq split: if_splits)
next
  assume a: "lastWith entries k i"
  show "lastWith (entries @ [e]) k i"
    unfolding lastWith_def
  proof (intro conjI allI impI)
    show "i < length (entries @ [e])" using a by (simp add: lastWith_def)
    show "normalizedName ((entries @ [e]) ! i) = k" using a by (simp add: lastWith_def nth_append)
    fix j assume j: "j < length (entries @ [e])" "normalizedName ((entries @ [e]) ! j) = k"
    then have "j \<noteq> length entries" using assms by auto
    then have "j < length entries" using j(1) by simp
    then show "j \<le> i" using a j(2) by (simp add: lastWith_def nth_append)
  qed
qed

lemma buildRoster_invariant:
  "(\<forall>k i. snd (buildRoster rows) k = Some i \<longleftrightarrow> lastWith (fst (buildRoster rows)) k i)
   \<and> (\<forall>e \<in> set (fst (buildRoster rows)).
         normalizedName e \<noteq> [] \<and> \<not> matched e \<and> 1 \<le> rowIndex e \<and> rowIndex e \<le> length rows)
   \<and> sorted_wrt (<) (map rowIndex (fst (buildRoster rows)))"
proof (induction rows rule: rev_induct)
  case Nil
  then show ?case by (simp add: buildRoster_def lastWith_def)
next
  case (snoc r rows)
  obtain E M where b: "buildRoster rows = (E, M)"
    by (cases "buildRoster rows")
  obtain rosterCell firstNameCell lastNameCell where r: "r = (rosterCell, firstNameCell, lastNameCell)"
    by (cases r)
  define n where "n = normalizeName (cleanName firstNameCell) (cleanName lastNameCell)"
  define e where "e = \<lparr>normalizedName = n, rowIndex = Suc (length rows), matched = False\<rparr>"
  show ?case
  proof (cases "trim rosterCell \<in> scheduleATypes \<and> n \<noteq> []")
    case False
    then have "buildRoster (rows @ [r]) = (E, M)"
      using b r by (auto simp: buildRoster_snoc rosterRow_def n_def Let_def)
    then show ?thesis
      using snoc.IH b by auto
  next
    case True
    then have eq: "buildRoster (rows @ [r]) = (E @ [e], M(n \<mapsto> length E))"
      using b r by (simp add: buildRoster_snoc rosterRow_def n_def e_def Let_def)
    have ne: "normalizedName e = n" by (simp add: e_def)
    have "(M(n \<mapsto> length E)) k = Some i \<longleftrightarrow> lastWith (E @ [e]) k i" for k i
    proof (cases "k = n")
      case True
      then show ?thesis
        using lastWith_snoc_same [of E e i] ne by auto
    next
      case False
      then show ?thesis
        using lastWith_snoc_other [of e k E i] ne snoc.IH b by auto
    qed
    moreover have "\<forall>x \<in> set (E @ [e]).
        normalizedName x \<noteq> [] \<and> \<not> matched x \<and> 1 \<le> rowIndex x \<and> rowIndex x \<le> length (rows @ [r])"
      using snoc.IH b True by (auto simp: e_def)
    moreover have "sorted_wrt (<) (map rowIndex (E @ [e]))"
      using snoc.IH b by (auto simp: sorted_wrt_append e_def)
    ultimately show ?thesis
      using eq by simp
  qed
qed

lemma buildRoster_index_range:
  "snd (buildRoster rows) k = Some i \<Longrightarrow> i < length (fst (buildRoster rows))"
  using buildRoster_invariant [of rows] by (simp add: lastWith_def)

lemma buildRoster_distinct: "distinct (map rowIndex (fst (buildRoster rows)))"
  using buildRoster_invariant [of rows] strict_sorted_iff by blast

lemma buildRoster_cnt: "cnt (fst (buildRoster rows)) = 0"
  using buildRoster_invariant [of rows] by (simp add: cnt_def)

definition keptRow :: "string list \<Rightarrow> nat \<Rightarrow> bool" where
  "keptRow activityRows row \<longleftrightarrow>
     trim (activityRows ! (row - 1)) \<noteq> []
     \<and> normalizeActivityName (cleanName (activityRows ! (row - 1))) \<noteq> []"

lemma buildActivity_invariant:
  "map rowIndex (buildActivity rows) = filter (keptRow rows) [1..<Suc (length rows)]
   \<and> (\<forall>e \<in> set (buildActivity rows). normalizedName e \<noteq> [] \<and> \<not> matched e)"
proof (induction rows rule: rev_induct)
  case Nil
  then show ?case by (simp add: buildActivity_def)
next
  case (snoc r rows)
  have old: "filter (keptRow (rows @ [r])) [1..<Suc (length rows)]
      = filter (keptRow rows) [1..<Suc (length rows)]"
    by (rule filter_cong) (auto simp: keptRow_def nth_append)
  have new: "keptRow (rows @ [r]) (Suc (length rows))
      \<longleftrightarrow> trim r \<noteq> [] \<and> normalizeActivityName (cleanName r) \<noteq> []"
    by (simp add: keptRow_def)
  have upt: "[1..<Suc (length (rows @ [r]))] = [1..<Suc (length rows)] @ [Suc (length rows)]"
    by simp
  have "filter (keptRow (rows @ [r])) [1..<Suc (length (rows @ [r]))]
      = filter (keptRow rows) [1..<Suc (length rows)]
        @ (if trim r \<noteq> [] \<and> normalizeActivityName (cleanName r) \<noteq> [] then [Suc (length rows)] else [])"
    unfolding upt filter_append old using new by simp
  then show ?case
    using snoc.IH
    by (auto simp del: upt_Suc simp: buildActivity_snoc activityRow_def Let_def)
qed

lemma buildActivity_cnt: "cnt (buildActivity rows) = 0"
  using buildActivity_invariant [of rows] by (simp add: cnt_def)

subsection \<open>What each pass does to the state\<close>

lemma unmatchedRefs_set:
  "set (unmatchedRefs entries) = {i. i < length entries \<and> \<not> matched (entries ! i)}"
  by (auto simp: unmatchedRefs_def)

lemma unmatchedRefs_distinct: "distinct (unmatchedRefs entries)"
  by (simp add: unmatchedRefs_def)

lemma exactPass_props:
  assumes ran: "\<forall>k i. M k = Some i \<longrightarrow> i < length (eligibleRosterNames st)"
    and fresh: "\<forall>k < length (scheduleANames st). \<not> matched (scheduleANames st ! k)"
  shows "\<exists>st' h. exactPass M st = Inr st'
     \<and> map normalizedName (scheduleANames st') = map normalizedName (scheduleANames st)
     \<and> map rowIndex (scheduleANames st') = map rowIndex (scheduleANames st)
     \<and> map normalizedName (eligibleRosterNames st') = map normalizedName (eligibleRosterNames st)
     \<and> map rowIndex (eligibleRosterNames st') = map rowIndex (eligibleRosterNames st)
     \<and> exactMatches st' = exactMatches st + h \<and> fuzzyMatches st' = fuzzyMatches st
     \<and> cnt (scheduleANames st') = cnt (scheduleANames st) + h
     \<and> cnt (eligibleRosterNames st') \<le> cnt (eligibleRosterNames st) + h
     \<and> (\<forall>j < length (scheduleANames st).
           matched (scheduleANames st' ! j) = (M (normalizedName (scheduleANames st ! j)) \<noteq> None))
     \<and> (\<forall>i < length (eligibleRosterNames st).
           matched (eligibleRosterNames st' ! i)
             = (matched (eligibleRosterNames st ! i)
                \<or> (\<exists>j < length (scheduleANames st). M (normalizedName (scheduleANames st ! j)) = Some i)))"
proof -
  let ?sel = "selExact M (scheduleANames st)"
  let ?ks = "[0..<length (scheduleANames st)]"
  let ?F = "foldl (applySel ?sel) (scheduleANames st, eligibleRosterNames st) ?ks"
  let ?st' = "st\<lparr>scheduleANames := fst ?F, eligibleRosterNames := snd ?F,
                  exactMatches := exactMatches st + hits ?sel ?ks\<rparr>"
  have run: "exactPass M st = Inr ?st'"
    unfolding exactPass_def using ran by (intro exact_fold) blast
  have names: "map normalizedName (fst ?F) = map normalizedName (scheduleANames st)"
    "map rowIndex (fst ?F) = map rowIndex (scheduleANames st)"
    "map normalizedName (snd ?F) = map normalizedName (eligibleRosterNames st)"
    "map rowIndex (snd ?F) = map rowIndex (eligibleRosterNames st)"
    using fold_names [of ?sel "(scheduleANames st, eligibleRosterNames st)" ?ks] by simp_all
  have c1: "cnt (fst ?F) = cnt (scheduleANames st) + hits ?sel ?ks"
    using fold_cnt_fst [of ?ks "(scheduleANames st, eligibleRosterNames st)" ?sel] fresh by simp
  have c2: "cnt (snd ?F) \<le> cnt (eligibleRosterNames st) + hits ?sel ?ks"
    using fold_cnt_snd [of ?sel "(scheduleANames st, eligibleRosterNames st)" ?ks] by simp
  have f1: "\<forall>j < length (scheduleANames st).
      matched (fst ?F ! j) = (M (normalizedName (scheduleANames st ! j)) \<noteq> None)"
    using fold_matched_fst [of _ "(scheduleANames st, eligibleRosterNames st)" ?sel ?ks] fresh
    by (simp add: selExact_def)
  have f2: "\<forall>i < length (eligibleRosterNames st).
      matched (snd ?F ! i) = (matched (eligibleRosterNames st ! i)
         \<or> (\<exists>j < length (scheduleANames st). M (normalizedName (scheduleANames st ! j)) = Some i))"
    using fold_matched_snd [of _ "(scheduleANames st, eligibleRosterNames st)" ?sel ?ks]
    by (auto simp: selExact_def)
  show ?thesis
    apply (rule exI [of _ ?st'])
    apply (rule exI [of _ "hits ?sel ?ks"])
    using run names c1 c2 f1 f2 by simp
qed

lemma fuzzyPass_props:
  assumes d: "distinct (map rowIndex (eligibleRosterNames st))"
  shows "\<exists>st' h. fuzzyPass st = Inr st'
     \<and> map normalizedName (scheduleANames st') = map normalizedName (scheduleANames st)
     \<and> map rowIndex (scheduleANames st') = map rowIndex (scheduleANames st)
     \<and> map normalizedName (eligibleRosterNames st') = map normalizedName (eligibleRosterNames st)
     \<and> map rowIndex (eligibleRosterNames st') = map rowIndex (eligibleRosterNames st)
     \<and> exactMatches st' = exactMatches st \<and> fuzzyMatches st' = fuzzyMatches st + h
     \<and> cnt (scheduleANames st') = cnt (scheduleANames st) + h
     \<and> cnt (eligibleRosterNames st') \<le> cnt (eligibleRosterNames st) + h
     \<and> (\<forall>j < length (scheduleANames st).
           matched (scheduleANames st' ! j)
             = (matched (scheduleANames st ! j)
                \<or> 85 / 100 < fst (findBest (normalizedName (scheduleANames st ! j))
                                   (eligibleRosterNames st) (unmatchedRefs (eligibleRosterNames st)))))"
proof -
  let ?ur = "unmatchedRefs (eligibleRosterNames st)"
  let ?ua = "unmatchedRefs (scheduleANames st)"
  let ?sel = "selFuzzy (scheduleANames st) (eligibleRosterNames st) ?ur"
  let ?F = "foldl (applySel ?sel) (scheduleANames st, eligibleRosterNames st) ?ua"
  let ?st' = "st\<lparr>scheduleANames := fst ?F, eligibleRosterNames := snd ?F,
                  fuzzyMatches := fuzzyMatches st + hits ?sel ?ua\<rparr>"
  have ur: "\<forall>r \<in> set ?ur. r < length (eligibleRosterNames st)"
    by (simp add: unmatchedRefs_set)
  have "fuzzyPass st = forEachE (fuzzyStep ?ur) ?ua st"
    unfolding fuzzyPass_def Let_def batchLoop_forEachE by simp
  then have run: "fuzzyPass st = Inr ?st'"
    using fuzzy_fold [OF d ur, of ?ua] by simp
  have names: "map normalizedName (fst ?F) = map normalizedName (scheduleANames st)"
    "map rowIndex (fst ?F) = map rowIndex (scheduleANames st)"
    "map normalizedName (snd ?F) = map normalizedName (eligibleRosterNames st)"
    "map rowIndex (snd ?F) = map rowIndex (eligibleRosterNames st)"
    using fold_names [of ?sel "(scheduleANames st, eligibleRosterNames st)" ?ua] by simp_all
  have c1: "cnt (fst ?F) = cnt (scheduleANames st) + hits ?sel ?ua"
    using fold_cnt_fst [of ?ua "(scheduleANames st, eligibleRosterNames st)" ?sel]
    by (simp add: unmatchedRefs_set unmatchedRefs_distinct)
  have c2: "cnt (snd ?F) \<le> cnt (eligibleRosterNames st) + hits ?sel ?ua"
    using fold_cnt_snd [of ?sel "(scheduleANames st, eligibleRosterNames st)" ?ua] by simp
  have f1: "\<forall>j < length (scheduleANames st).
      matched (fst ?F ! j) = (matched (scheduleANames st ! j)
         \<or> 85 / 100 < fst (findBest (normalizedName (scheduleANames st ! j))
                            (eligibleRosterNames st) ?ur))"
    using fold_matched_fst [of _ "(scheduleANames st, eligibleRosterNames st)" ?sel ?ua]
    by (auto simp: selFuzzy_def unmatchedRefs_set)
  show ?thesis
    apply (rule exI [of _ ?st'])
    apply (rule exI [of _ "hits ?sel ?ua"])
    using run names c1 c2 f1 by simp
qed

lemma initialState_simps:
  "scheduleANames (initialState R A) = buildActivity A"
  "eligibleRosterNames (initialState R A) = fst (buildRoster R)"
  "exactMatches (initialState R A) = 0"
  "fuzzyMatches (initialState R A) = 0"
  by (simp_all add: initialState_def)

lemma run_structure:
  "\<exists>st1 st2. exactPass (snd (buildRoster R)) (initialState R A) = Inr st1
     \<and> fuzzyPass st1 = Inr st2 \<and> runMatching R A = Inr st2
     \<and> map normalizedName (scheduleANames st1) = map normalizedName (buildActivity A)
     \<and> map rowIndex (scheduleANames st1) = map rowIndex (buildActivity A)
     \<and> map normalizedName (scheduleANames st2) = map normalizedName (buildActivity A)
     \<and> map rowIndex (scheduleANames st2) = map rowIndex (buildActivity A)
     \<and> map normalizedName (eligibleRosterNames st2) = map normalizedName (fst (buildRoster R))
     \<and> map rowIndex (eligibleRosterNames st2) = map rowIndex (fst (buildRoster R))
     \<and> cnt (scheduleANames st2) = exactMatches st2 + fuzzyMatches st2
     \<and> cnt (eligibleRosterNames st2) \<le> exactMatches st2 + fuzzyMatches st2
     \<and> (\<forall>j < length (buildActivity A).
           matched (scheduleANames st1 ! j)
             = (snd (buildRoster R) (normalizedName (buildActivity A ! j)) \<noteq> None))
     \<and> (\<forall>j < length (buildActivity A).
           matched (scheduleANames st2 ! j)
             = (matched (scheduleANames st1 ! j)
                \<or> 85 / 100 < fst (findBest (normalizedName (scheduleANames st1 ! j))
                                   (eligibleRosterNames st1) (unmatchedRefs (eligibleRosterNames st1)))))"
proof -
  let ?st0 = "initialState R A"
  have ran: "\<forall>k i. snd (buildRoster R) k = Some i \<longrightarrow> i < length (eligibleRosterNames ?st0)"
    by (simp add: initialState_simps buildRoster_index_range)
  have fresh: "\<forall>k < length (scheduleANames ?st0). \<not> matched (scheduleANames ?st0 ! k)"
    using buildActivity_invariant [of A] by (simp add: initialState_simps)
  from exactPass_props [of "snd (buildRoster R)" ?st0, OF ran fresh]
  obtain st1 h1 where e: "exactPass (snd (buildRoster R)) ?st0 = Inr st1"
    and n1: "map normalizedName (scheduleANames st1) = map normalizedName (buildActivity A)"
      "map rowIndex (scheduleANames st1) = map rowIndex (buildActivity A)"
      "map normalizedName (eligibleRosterNames st1) = map normalizedName (fst (buildRoster R))"
      "map rowIndex (eligibleRosterNames st1) = map rowIndex (fst (buildRoster R))"
    and k1: "exactMatches st1 = h1" "fuzzyMatches st1 = 0"
      "cnt (scheduleANames st1) = h1" "cnt (eligibleRosterNames st1) \<le> h1"
    and m1: "\<forall>j < length (buildActivity A).
           matched (scheduleANames st1 ! j)
             = (snd (buildRoster R) (normalizedName (buildActivity A ! j)) \<noteq> None)"
    by (auto simp: initialState_simps buildActivity_cnt buildRoster_cnt)
  have d: "distinct (map rowIndex (eligibleRosterNames st1))"
    by (simp add: n1 buildRoster_distinct)
  have len: "length (scheduleANames st1) = length (buildActivity A)"
    using n1(1) by (metis length_map)
  from fuzzyPass_props [OF d]
  obtain st2 h2 where f: "fuzzyPass st1 = Inr st2"
    and n2: "map normalizedName (scheduleANames st2) = map normalizedName (buildActivity A)"
      "map rowIndex (scheduleANames st2) = map rowIndex (buildActivity A)"
      "map normalizedName (eligibleRosterNames st2) = map normalizedName (fst (buildRoster R))"
      "map rowIndex (eligibleRosterNames st2) = map rowIndex (fst (buildRoster R))"
    and k2: "exactMatches st2 = h1" "fuzzyMatches st2 = h2"
      "cnt (scheduleANames st2) = h1 + h2" "cnt (eligibleRosterNames st2) \<le> h1 + h2"
    and m2: "\<forall>j < length (buildActivity A).
           matched (scheduleANames st2 ! j)
             = (matched (scheduleANames st1 ! j)
                \<or> 85 / 100 < fst (findBest (normalizedName (scheduleANames st1 ! j))
                                   (eligibleRosterNames st1) (unmatchedRefs (eligibleRosterNames st1))))"
    using n1 k1 len by auto
  have "runMatching R A = Inr st2"
    using e f by (simp add: runMatching_def)
  then show ?thesis
    using e f n1 n2 k2 m1 m2 by auto
qed

section \<open>Claims on the matching run\<close>

lemma two_for_one_lookup:
  "snd (buildRoster [(''Schedule A'', ''john'', ''smith'')])
       (normalizedName (buildActivity [''john smith'', ''John Smith''] ! 0)) = Some 0
   \<and> snd (buildRoster [(''Schedule A'', ''john'', ''smith'')])
       (normalizedName (buildActivity [''john smith'', ''John Smith''] ! 1)) = Some 0"
  by code_simp

lemma two_for_one_exact:
  "map_sum id report
        (runMatching [(''Schedule A'', ''john'', ''smith'')] [''john smith'', ''John Smith''])
       = Inr \<lparr>exactLogged = 2, fuzzyLogged = 0, unmatchedLogged = 0,
              matchedRosterLogged = 2, pinkRows = [], redRows = [1]\<rparr>"
  by code_simp

lemma two_for_one_fuzzy:
  "map_sum id report
        (runMatching [(''Schedule A'', ''jane'', ''doe'')] [''jane dow'', ''jane dox''])
       = Inr \<lparr>exactLogged = 0, fuzzyLogged = 2, unmatchedLogged = 0,
              matchedRosterLogged = 2, pinkRows = [], redRows = [1]\<rparr>"
  by code_simp

text \<open>
  Claim C1. The match is one-to-one: once a record on either side is marked matched it is
  never selected again in the same run, so no roster entry is matched to by more than one
  activity entry. The script breaks this. With one roster row \<open>jane doe\<close> and the
  activity rows \<open>jane dow\<close> and \<open>jane dox\<close>, the second pass sets the flag of the roster
  entry for the first activity entry and selects the same entry again for the second: two
  fuzzy matches are counted for one roster row, and the last log line reports two matched
  roster entries where one is painted. With one roster row \<open>john smith\<close> and the
  activity rows \<open>john smith\<close> and \<open>John Smith\<close>, the exact-match map sends both activity
  entries to roster entry 0, with the same two counted matches for one roster row.
\<close>

theorem C1_roster_entry_matched_twice:
  "snd (buildRoster [(''Schedule A'', ''john'', ''smith'')])
       (normalizedName (buildActivity [''john smith'', ''John Smith''] ! 0)) = Some 0
   \<and> snd (buildRoster [(''Schedule A'', ''john'', ''smith'')])
       (normalizedName (buildActivity [''john smith'', ''John Smith''] ! 1)) = Some 0
   \<and> map_sum id report
        (runMatching [(''Schedule A'', ''john'', ''smith'')] [''john smith'', ''John Smith''])
       = Inr \<lparr>exactLogged = 2, fuzzyLogged = 0, unmatchedLogged = 0,
              matchedRosterLogged = 2, pinkRows = [], redRows = [1]\<rparr>
   \<and> map_sum id report
        (runMatching [(''Schedule A'', ''jane'', ''doe'')] [''jane dow'', ''jane dox''])
       = Inr \<lparr>exactLogged = 0, fuzzyLogged = 2, unmatchedLogged = 0,
              matchedRosterLogged = 2, pinkRows = [], redRows = [1]\<rparr>"
  by (intro conjI two_for_one_exact two_for_one_fuzzy
      two_for_one_lookup [THEN conjunct1] two_for_one_lookup [THEN conjunct2])

text \<open>
  What every run does keep: it ends normally, and each match it counts marks an activity
  entry that was unmatched until then, so the activity entries marked matched are exactly
  as many as \<open>exactMatches + fuzzyMatches\<close>; the roster entries marked matched are at most
  as many. A roster entry that the first pass marked is not among the candidates of the
  second pass.
\<close>

lemma activity_entries_matched_once:
  "\<exists>st. runMatching rosterRows activityRows = Inr st
     \<and> length (filter matched (scheduleANames st)) = exactMatches st + fuzzyMatches st
     \<and> length (filter matched (eligibleRosterNames st)) \<le> exactMatches st + fuzzyMatches st"
  using run_structure [of rosterRows activityRows] unfolding cnt_def by blast

lemma fuzzy_candidates_unmatched:
  "r \<in> set (unmatchedRefs entries) \<Longrightarrow> r < length entries \<and> \<not> matched (entries ! r)"
  by (simp add: unmatchedRefs_set)

lemma two_john_smiths:
  "fst (buildRoster [(''Schedule A'', ''john'', ''smith''), (''Schedule A'', ''john'', ''smith'')])
     = [\<lparr>normalizedName = ''johnsmith'', rowIndex = 1, matched = False\<rparr>,
        \<lparr>normalizedName = ''johnsmith'', rowIndex = 2, matched = False\<rparr>]"
  by code_simp

lemma two_john_smiths_index:
  "snd (buildRoster [(''Schedule A'', ''john'', ''smith''), (''Schedule A'', ''john'', ''smith'')])
     ''johnsmith'' = Some 1"
  by code_simp

text \<open>
  Claim C2 (as stated: a repeated normalised name is indexed at its first roster entry).
  \<open>exactMatchMap.set\<close> overwrites: with two roster rows \<open>john smith\<close> the key
  \<open>johnsmith\<close> is mapped to entry 1, the second one.
\<close>

theorem C2_counterexample:
  "normalizedName (fst (buildRoster [(''Schedule A'', ''john'', ''smith''),
                                     (''Schedule A'', ''john'', ''smith'')]) ! 0) = ''johnsmith''
   \<and> normalizedName (fst (buildRoster [(''Schedule A'', ''john'', ''smith''),
                                       (''Schedule A'', ''john'', ''smith'')]) ! 1) = ''johnsmith''
   \<and> snd (buildRoster [(''Schedule A'', ''john'', ''smith''),
                        (''Schedule A'', ''john'', ''smith'')]) ''johnsmith'' = Some 1
   \<and> snd (buildRoster [(''Schedule A'', ''john'', ''smith''),
                        (''Schedule A'', ''john'', ''smith'')]) ''johnsmith'' \<noteq> Some 0"
  unfolding two_john_smiths two_john_smiths_index by simp

text \<open>
  Claim C2, amended. The exact-match map sends a key to entry \<open>i\<close> exactly when \<open>i\<close> is
  the last roster entry, in input order, with that normalised name; the earlier entries
  with the same name are not indexed.
\<close>

theorem C2_index_keeps_last:
  "snd (buildRoster rosterRows) k = Some i \<longleftrightarrow>
     i < length (fst (buildRoster rosterRows))
     \<and> normalizedName (fst (buildRoster rosterRows) ! i) = k
     \<and> (\<forall>j < length (fst (buildRoster rosterRows)).
           normalizedName (fst (buildRoster rosterRows) ! j) = k \<longrightarrow> j \<le> i)"
  using buildRoster_invariant [of rosterRows] unfolding lastWith_def by blast

theorem C2_index_keeps_last_witness:
  "1 < length (fst (buildRoster [(''Schedule A'', ''john'', ''smith''),
                                 (''Schedule A'', ''john'', ''smith'')]))
   \<and> normalizedName (fst (buildRoster [(''Schedule A'', ''john'', ''smith''),
                                       (''Schedule A'', ''john'', ''smith'')]) ! 1) = ''johnsmith''
   \<and> snd (buildRoster [(''Schedule A'', ''john'', ''smith''),
                        (''Schedule A'', ''john'', ''smith'')]) ''johnsmith'' = Some 1"
proof -
  let ?R = "[(''Schedule A'', ''john'', ''smith''), (''Schedule A'', ''john'', ''smith'')]"
  have h: "1 < length (fst (buildRoster ?R))
     \<and> normalizedName (fst (buildRoster ?R) ! 1) = ''johnsmith''
     \<and> (\<forall>j < length (fst (buildRoster ?R)).
           normalizedName (fst (buildRoster ?R) ! j) = ''johnsmith'' \<longrightarrow> j \<le> 1)"
    unfolding two_john_smiths by simp
  then show ?thesis
    using C2_index_keeps_last [of ?R "''johnsmith''" 1] by blast
qed

lemma distance_within:
  assumes "levenshteinDistanceWithLimit s1 s2 maxDistance = d" "d \<le> maxDistance"
  shows "int (levenshtein s1 s2) = d"
proof (cases "int (levenshtein s1 s2) \<le> maxDistance")
  case True
  then show ?thesis
    using assms(1) by (simp add: levenshteinDistanceWithLimit_within)
next
  case False
  then have "maxDistance < levenshteinDistanceWithLimit s1 s2 maxDistance"
    by (simp add: levenshteinDistanceWithLimit_beyond)
  then show ?thesis
    using assms by simp
qed

lemma jane_names:
  "normalizeActivityName (cleanName ''jane dow'') = ''janedow''
   \<and> normalizeName (cleanName ''jane'') (cleanName ''doe'') = ''janedoe''"
  by code_simp

lemma john_names:
  "normalizeActivityName (cleanName ''John Smith (note)'') = ''johnsmith''
   \<and> normalizeName (cleanName ''john'') (cleanName ''smith'') = ''johnsmith''"
  by code_simp

lemma jane_score: "calculateOptimizedSimilarity ''janedow'' ''janedoe'' (85 / 100) = 6 / 7"
  by code_simp

lemma jane_distance: "levenshtein ''janedow'' ''janedoe'' = 1"
proof -
  have "levenshteinDistanceWithLimit ''janedow'' ''janedoe'' 1 = 1"
    by code_simp
  then have "int (levenshtein ''janedow'' ''janedoe'') = 1"
    by (rule distance_within) simp
  then show ?thesis by linarith
qed

lemma john_index:
  "snd (buildRoster [(''Schedule A'', ''john'', ''smith''), (''Schedule A'', ''jane'', ''doe'')])
        ''johnsmith'' = Some 0"
  by code_simp

lemma end_to_end_report:
  "map_sum id report
        (runMatching [(''Schedule A'', ''john'', ''smith''), (''Schedule A'', ''jane'', ''doe'')]
           [''John Smith (note)'', ''jane dow''])
       = Inr \<lparr>exactLogged = 1, fuzzyLogged = 1, unmatchedLogged = 0,
              matchedRosterLogged = 2, pinkRows = [], redRows = [1, 2]\<rparr>"
  by code_simp

text \<open>
  Claim C3 (as stated: record 11 fuzzy-matches record 2 with score 0.875). The normalised
  names \<open>janedow\<close> and \<open>janedoe\<close> have length 7, not 8, so the score is \<open>6 / 7\<close>.
\<close>

theorem C3_counterexample:
  "calculateOptimizedSimilarity (normalizeActivityName (cleanName ''jane dow''))
      (normalizeName (cleanName ''jane'') (cleanName ''doe'')) (85 / 100) = 6 / 7
   \<and> (6 / 7 :: rat) \<noteq> 875 / 1000"
  unfolding jane_names [THEN conjunct1] jane_names [THEN conjunct2] jane_score by simp

text \<open>
  Claim C3, amended. On the roster rows \<open>john smith\<close>, \<open>jane doe\<close> and the activity rows
  \<open>John Smith (note)\<close>, \<open>jane dow\<close>: the first activity row and the first roster row both
  normalise to \<open>johnsmith\<close>, which the exact-match map sends to roster entry 0; the second
  activity row is at edit distance 1 from \<open>janedoe\<close>, of length 7, scores \<open>6 / 7\<close>, which is
  above 0.85, against roster entry 1; the run counts one exact and one fuzzy match, and
  leaves no activity row and no roster row unmatched.
\<close>

theorem C3_end_to_end:
  "normalizeActivityName (cleanName ''John Smith (note)'') = ''johnsmith''
   \<and> normalizeName (cleanName ''john'') (cleanName ''smith'') = ''johnsmith''
   \<and> snd (buildRoster [(''Schedule A'', ''john'', ''smith''), (''Schedule A'', ''jane'', ''doe'')])
        ''johnsmith'' = Some 0
   \<and> normalizeActivityName (cleanName ''jane dow'') = ''janedow''
   \<and> normalizeName (cleanName ''jane'') (cleanName ''doe'') = ''janedoe''
   \<and> levenshtein ''janedow'' ''janedoe'' = 1
   \<and> calculateOptimizedSimilarity ''janedow'' ''janedoe'' (85 / 100) = 6 / 7
   \<and> (85 / 100 :: rat) < 6 / 7
   \<and> map_sum id report
        (runMatching [(''Schedule A'', ''john'', ''smith''), (''Schedule A'', ''jane'', ''doe'')]
           [''John Smith (note)'', ''jane dow''])
       = Inr \<lparr>exactLogged = 1, fuzzyLogged = 1, unmatchedLogged = 0,
              matchedRosterLogged = 2, pinkRows = [], redRows = [1, 2]\<rparr>"
  unfolding john_names [THEN conjunct1] john_names [THEN conjunct2] jane_names [THEN conjunct1]
    jane_names [THEN conjunct2] john_index jane_distance jane_score end_to_end_report
  by simp













lemma note_name: "normalizeActivityName (cleanName ''(note)'') = []"
  by code_simp

lemma note_report:
  "map_sum id report (runMatching [] [''(note)''])
     = Inr \<lparr>exactLogged = 0, fuzzyLogged = 0, unmatchedLogged = 0,
            matchedRosterLogged = 0, pinkRows = [], redRows = []\<rparr>"
  by code_simp

text \<open>
  Claim C8 (as stated: a row that normalises to the empty string is counted in the
  unmatched statistic). The activity row \<open>(note)\<close> normalises to the empty string; the
  run on that single row logs 0 unmatched entries and paints no row.
\<close>

theorem C8_counterexample:
  "normalizeActivityName (cleanName ''(note)'') = []
   \<and> map_sum id report (runMatching [] [''(note)''])
       = Inr \<lparr>exactLogged = 0, fuzzyLogged = 0, unmatchedLogged = 0,
              matchedRosterLogged = 0, pinkRows = [], redRows = []\<rparr>"
  using note_name note_report by (rule conjI)

text \<open>
  Claim C8, amended. Every run ends normally. The activity entries it works on are the
  rows whose text is not blank and whose normalised name is not empty, in input order: a
  row that normalises to the empty string gets no entry, so it is never matched and never
  painted. No roster entry has an empty name either. The unmatched statistic that the run
  logs is the number of unmatched entries, so it does not count such a row.
\<close>

theorem C8_empty_names_dropped:
  "\<exists>st. runMatching rosterRows activityRows = Inr st
     \<and> map rowIndex (scheduleANames st)
         = filter (\<lambda>row. trim (activityRows ! (row - 1)) \<noteq> []
                        \<and> normalizeActivityName (cleanName (activityRows ! (row - 1))) \<noteq> [])
             [1..<Suc (length activityRows)]
     \<and> [] \<notin> set (map normalizedName (scheduleANames st))
     \<and> [] \<notin> set (map normalizedName (eligibleRosterNames st))
     \<and> unmatchedLogged (report st)
         = int (length (filter (\<lambda>entry. \<not> matched entry) (scheduleANames st)))
     \<and> length (pinkRows (report st)) = length (filter (\<lambda>entry. \<not> matched entry) (scheduleANames st))"
proof -
  from run_structure [of rosterRows activityRows]
  obtain st where r: "runMatching rosterRows activityRows = Inr st"
    and n: "map normalizedName (scheduleANames st) = map normalizedName (buildActivity activityRows)"
      "map rowIndex (scheduleANames st) = map rowIndex (buildActivity activityRows)"
      "map normalizedName (eligibleRosterNames st) = map normalizedName (fst (buildRoster rosterRows))"
    and c: "cnt (scheduleANames st) = exactMatches st + fuzzyMatches st"
    by blast
  have rows: "map rowIndex (scheduleANames st)
         = filter (\<lambda>row. trim (activityRows ! (row - 1)) \<noteq> []
                        \<and> normalizeActivityName (cleanName (activityRows ! (row - 1))) \<noteq> [])
             [1..<Suc (length activityRows)]"
    using buildActivity_invariant [of activityRows] n(2) unfolding keptRow_def by simp
  have e1: "[] \<notin> set (map normalizedName (scheduleANames st))"
    unfolding n(1) using buildActivity_invariant [of activityRows] by auto
  have e2: "[] \<notin> set (map normalizedName (eligibleRosterNames st))"
    unfolding n(3) using buildRoster_invariant [of rosterRows] by auto
  have "length (filter matched (scheduleANames st))
      + length (filter (\<lambda>entry. \<not> matched entry) (scheduleANames st)) = length (scheduleANames st)"
    by (rule sum_length_filter_compl)
  then have u: "unmatchedLogged (report st)
         = int (length (filter (\<lambda>entry. \<not> matched entry) (scheduleANames st)))"
    using c by (simp add: report_def cnt_def)
  have p: "length (pinkRows (report st)) = length (filter (\<lambda>entry. \<not> matched entry) (scheduleANames st))"
    by (simp add: report_def)
  show ?thesis
    using r rows e1 e2 u p by blast
qed

end
